theory Spec2Isabelle
  imports Main
begin

section \<open>Strings and the string methods the script calls\<close>

text \<open>
  The script \<^verbatim>\<open>src/index.ts\<close> works on arrays of strings and on arrays of small records
  of strings.  A script string is a \<^typ>\<open>string\<close>, an array without holes is a list.

  \<^verbatim>\<open>String.prototype.toUpperCase\<close> belongs to the runtime and not to the script (it
  follows the Unicode case tables), so every function that calls it takes it as the
  parameter \<open>toUpperCase\<close>.  No theorem below uses anything about it.  The concrete
  \<open>ascii_toUpperCase\<close> is what the method does on ASCII text, and is used where a
  theorem is evaluated on literal data.

  \<^verbatim>\<open>element.startsWith("x")\<close> compares the beginning of the string with the search
  string; neither method throws on a string.
\<close>

definition ascii_toUpperCase_char :: "char \<Rightarrow> char" where
  "ascii_toUpperCase_char c =
     (case map_of (zip ''abcdefghijklmnopqrstuvwxyz'' ''ABCDEFGHIJKLMNOPQRSTUVWXYZ'') c of
        Some u \<Rightarrow> u
      | None \<Rightarrow> c)"

definition ascii_toUpperCase :: "string \<Rightarrow> string" where
  "ascii_toUpperCase s = map ascii_toUpperCase_char s"

definition startsWith :: "string \<Rightarrow> string \<Rightarrow> bool" where
  "startsWith s searchString = (take (length searchString) s = searchString)"

section \<open>transformData\<close>

text \<open>
  \<^verbatim>\<open>
  function imperative(array: string[]): string[] {
    const result: string[] = [];
    for (const element of array) {
      result.push(element.toUpperCase());
    }
    return result;
  }
  function declarative(array: string[]): string[] {
    return array.map((element) => element.toUpperCase());
  }
  \<close>
  The loop is a recursion over the elements still to visit, with the array under
  construction as the accumulator; \<^verbatim>\<open>push\<close> appends at the end.
\<close>

fun transformData_imperative_loop ::
  "(string \<Rightarrow> string) \<Rightarrow> string list \<Rightarrow> string list \<Rightarrow> string list" where
  "transformData_imperative_loop toUpperCase [] result = result"
| "transformData_imperative_loop toUpperCase (element # rest) result =
     transformData_imperative_loop toUpperCase rest (result @ [toUpperCase element])"

definition transformData_imperative :: "(string \<Rightarrow> string) \<Rightarrow> string list \<Rightarrow> string list" where
  "transformData_imperative toUpperCase array =
     transformData_imperative_loop toUpperCase array []"

definition transformData_declarative :: "(string \<Rightarrow> string) \<Rightarrow> string list \<Rightarrow> string list" where
  "transformData_declarative toUpperCase array = map (\<lambda>element. toUpperCase element) array"

section \<open>transformAndFilterData\<close>

text \<open>
  \<^verbatim>\<open>
  function imperative(array: string[]): string[] {
    const result: string[] = [];
    for (const element of array) {
      if (!element.startsWith("x")) { continue; }
      result.push(element.toUpperCase());
    }
    return result;
  }
  function declarative(array: string[]): string[] {
    return array
      .filter((element) => element.startsWith("x"))
      .map((element) => element.toUpperCase());
  }
  \<close>
\<close>

fun transformAndFilterData_imperative_loop ::
  "(string \<Rightarrow> string) \<Rightarrow> string list \<Rightarrow> string list \<Rightarrow> string list" where
  "transformAndFilterData_imperative_loop toUpperCase [] result = result"
| "transformAndFilterData_imperative_loop toUpperCase (element # rest) result =
     (if \<not> startsWith element ''x''
      then transformAndFilterData_imperative_loop toUpperCase rest result
      else transformAndFilterData_imperative_loop toUpperCase rest
             (result @ [toUpperCase element]))"

definition transformAndFilterData_imperative ::
  "(string \<Rightarrow> string) \<Rightarrow> string list \<Rightarrow> string list" where
  "transformAndFilterData_imperative toUpperCase array =
     transformAndFilterData_imperative_loop toUpperCase array []"

definition transformAndFilterData_declarative ::
  "(string \<Rightarrow> string) \<Rightarrow> string list \<Rightarrow> string list" where
  "transformAndFilterData_declarative toUpperCase array =
     map (\<lambda>element. toUpperCase element)
       (filter (\<lambda>element. startsWith element ''x'') array)"

section \<open>Values, errors and objects of the runtime\<close>

text \<open>
  The only exception the script can raise is the runtime's \<^verbatim>\<open>TypeError\<close>: from
  \<^verbatim>\<open>reduce\<close> on an empty array without an initial value, and from calling a property
  that is not a function.
\<close>

datatype error = TypeError

text \<open>
  The primitive values that meet the operator \<^verbatim>\<open>+\<close> in the script are numbers and
  strings.  The numbers are the literals \<open>0\<close> to \<open>4\<close> and occurrence counts, which stay
  below the largest array length \<open>2^32\<close> and so are exact; they are modelled as integers.
  \<^verbatim>\<open>+\<close> adds two numbers, and concatenates as soon as one operand is a string, the
  other one being converted to a string (for a whole number, its decimal digits).
\<close>

datatype jsval = Num int | Str string

function decimal_digits :: "nat \<Rightarrow> string" where
  "decimal_digits n =
     (if n < 10 then [''0123456789'' ! n]
      else decimal_digits (n div 10) @ [''0123456789'' ! (n mod 10)])"
  by pat_completeness auto
termination
  by (relation "measure id") auto

definition Number_toString :: "int \<Rightarrow> string" where
  "Number_toString n =
     (if 0 \<le> n then decimal_digits (nat n) else CHR ''-'' # decimal_digits (nat (- n)))"

fun ToString :: "jsval \<Rightarrow> string" where
  "ToString (Num n) = Number_toString n"
| "ToString (Str s) = s"

fun js_add :: "jsval \<Rightarrow> jsval \<Rightarrow> jsval" where
  "js_add (Num a) (Num b) = Num (a + b)"
| "js_add l r = Str (ToString l @ ToString r)"

text \<open>
  The two aggregations keep their result in an object created by the literal \<^verbatim>\<open>{}\<close>,
  used as a dictionary from strings.  The own properties of such an object are a map
  from keys to values.  Its prototype is \<^verbatim>\<open>Object.prototype\<close>, so reading
  \<^verbatim>\<open>result[key]\<close> for a key that is not an own property finds what
  \<^verbatim>\<open>Object.prototype\<close> has under that key: a method of the runtime, or for
  \<^verbatim>\<open>__proto__\<close> an accessor whose getter returns the prototype of the object, which
  is \<^verbatim>\<open>Object.prototype\<close> itself.  Only a key that is found nowhere reads as
  \<^verbatim>\<open>undefined\<close>.  The table lists the properties that \<^verbatim>\<open>Object.prototype\<close> has in
  ECMAScript, each method with the name of the function it holds; the five whose names
  begin with two underscores are the legacy ones, which Node.js and the browsers
  provide.
\<close>

datatype builtin = Function string | ObjectPrototype

definition Object_prototype :: "(string \<times> builtin) list" where
  "Object_prototype =
     [(''constructor'', Function ''Object''),
      (''__defineGetter__'', Function ''__defineGetter__''),
      (''__defineSetter__'', Function ''__defineSetter__''),
      (''hasOwnProperty'', Function ''hasOwnProperty''),
      (''__lookupGetter__'', Function ''__lookupGetter__''),
      (''__lookupSetter__'', Function ''__lookupSetter__''),
      (''isPrototypeOf'', Function ''isPrototypeOf''),
      (''propertyIsEnumerable'', Function ''propertyIsEnumerable''),
      (''toString'', Function ''toString''),
      (''valueOf'', Function ''valueOf''),
      (''__proto__'', ObjectPrototype),
      (''toLocaleString'', Function ''toLocaleString'')]"

datatype 'v property = Own 'v | Inherited builtin | Undefined

definition Get :: "(string \<rightharpoonup> 'v) \<Rightarrow> string \<Rightarrow> 'v property" where
  "Get obj key =
     (case obj key of
        Some v \<Rightarrow> Own v
      | None \<Rightarrow> (case map_of Object_prototype key of
                   Some b \<Rightarrow> Inherited b
                 | None \<Rightarrow> Undefined))"

text \<open>
  An object of the runtime that meets \<^verbatim>\<open>+\<close> is converted to a primitive first: a
  function to its source text, which for a function of the runtime has the form below
  (the spacing is the engine's choice), and \<^verbatim>\<open>Object.prototype\<close> to
  \<^verbatim>\<open>"[object Object]"\<close>.
\<close>

fun ToPrimitive :: "builtin \<Rightarrow> jsval" where
  "ToPrimitive (Function name) = Str (''function '' @ name @ ''() { [native code] }'')"
| "ToPrimitive ObjectPrototype = Str ''[object Object]''"

text \<open>
  The assignment \<^verbatim>\<open>result[key] = v\<close> of a primitive \<open>v\<close> writes the own property if
  there is one.  Otherwise the key \<^verbatim>\<open>__proto__\<close> reaches the setter of the accessor of
  \<^verbatim>\<open>Object.prototype\<close>, which does nothing for a value that is neither an object
  nor \<^verbatim>\<open>null\<close>; every other key gets a new own property (the methods of
  \<^verbatim>\<open>Object.prototype\<close> are writable, so they are shadowed).
  The object literal \<^verbatim>\<open>{...obj, [key]: v}\<close> copies the own properties of \<open>obj\<close> into
  a new object and then defines the own property \<open>key\<close>, whatever the key: a computed key
  never reaches the setter.
\<close>

definition Set_primitive :: "(string \<rightharpoonup> 'v) \<Rightarrow> string \<Rightarrow> 'v \<Rightarrow> (string \<rightharpoonup> 'v)" where
  "Set_primitive obj key v =
     (case obj key of
        Some _ \<Rightarrow> obj(key \<mapsto> v)
      | None \<Rightarrow> (case map_of Object_prototype key of
                   Some ObjectPrototype \<Rightarrow> obj
                 | _ \<Rightarrow> obj(key \<mapsto> v)))"

definition spread_with :: "(string \<rightharpoonup> 'v) \<Rightarrow> string \<Rightarrow> 'v \<Rightarrow> (string \<rightharpoonup> 'v)" where
  "spread_with obj key v = obj(key \<mapsto> v)"

section \<open>The reduce operator\<close>

text \<open>
  \<^verbatim>\<open>array.reduce(callbackfn, initialValue)\<close> calls \<open>callbackfn\<close> on the accumulated
  value and each element from left to right, starting from \<open>initialValue\<close>; an exception
  of the callback ends the call.  Without an initial value the first element is the
  first accumulated value and the calls start at the second element; on an empty array
  that form throws a \<^verbatim>\<open>TypeError\<close>.
\<close>

fun reduce :: "('b \<Rightarrow> 'a \<Rightarrow> error + 'b) \<Rightarrow> 'b \<Rightarrow> 'a list \<Rightarrow> error + 'b" where
  "reduce callbackfn previousValue [] = Inr previousValue"
| "reduce callbackfn previousValue (currentValue # rest) =
     (case callbackfn previousValue currentValue of
        Inl e \<Rightarrow> Inl e
      | Inr v \<Rightarrow> reduce callbackfn v rest)"

definition reduce_no_initialValue :: "('a \<Rightarrow> 'a \<Rightarrow> error + 'a) \<Rightarrow> 'a list \<Rightarrow> error + 'a" where
  "reduce_no_initialValue callbackfn array =
     (case array of
        [] \<Rightarrow> Inl TypeError
      | first # rest \<Rightarrow> reduce callbackfn first rest)"

section \<open>The examples at the top of the script\<close>

text \<open>
  \<^verbatim>\<open>
  ["a", "b", "c", "d"].map((element) => element.toUpperCase());
  [1, 2, 3, 4].filter((element) => element > 2);
  [1, 2, 3, 4].reduce((previousValue, currentValue) => previousValue + currentValue);
  ["1", "2", "3", "4"].reduce(
    (previousValue, currentValue) => previousValue + currentValue, "");
  \<close>
\<close>

definition example_map :: "(string \<Rightarrow> string) \<Rightarrow> string list" where
  "example_map toUpperCase = map (\<lambda>element. toUpperCase element) [''a'', ''b'', ''c'', ''d'']"

definition example_filter :: "int list" where
  "example_filter = filter (\<lambda>element. element > 2) [1, 2, 3, 4]"

definition example_reduce :: "error + jsval" where
  "example_reduce =
     reduce_no_initialValue (\<lambda>previousValue currentValue. Inr (js_add previousValue currentValue))
       [Num 1, Num 2, Num 3, Num 4]"

definition example_reduce_initialValue :: "error + jsval" where
  "example_reduce_initialValue =
     reduce (\<lambda>previousValue currentValue. Inr (js_add previousValue currentValue))
       (Str [])
       [Str ''1'', Str ''2'', Str ''3'', Str ''4'']"

section \<open>The two update expressions\<close>

text \<open>
  \<^verbatim>\<open>result[discount]?.concat(code) ?? [code]\<close> in \<^verbatim>\<open>groupData\<close>: the optional chain
  stops only when \<^verbatim>\<open>result[discount]\<close> is \<^verbatim>\<open>undefined\<close>, and then the value is
  \<^verbatim>\<open>[code]\<close>.  An own property is an array, and \<^verbatim>\<open>concat\<close> returns a new array with
  \<open>code\<close> at the end.  A value found on \<^verbatim>\<open>Object.prototype\<close> is not \<^verbatim>\<open>undefined\<close>
  and has no property \<^verbatim>\<open>concat\<close>, so the call throws a \<^verbatim>\<open>TypeError\<close>.

  \<^verbatim>\<open>(result[code] ?? 0) + 1\<close> in \<^verbatim>\<open>count\<close>: only \<^verbatim>\<open>undefined\<close> is replaced by \<open>0\<close>; a
  value found on \<^verbatim>\<open>Object.prototype\<close> goes into \<^verbatim>\<open>+\<close> as it is.  Nothing here
  throws.
\<close>

definition group_value :: "(string \<rightharpoonup> string list) \<Rightarrow> string \<Rightarrow> string \<Rightarrow> error + string list" where
  "group_value result discount code =
     (case Get result discount of
        Own codes \<Rightarrow> Inr (codes @ [code])
      | Inherited _ \<Rightarrow> Inl TypeError
      | Undefined \<Rightarrow> Inr [code])"

definition count_value :: "(string \<rightharpoonup> jsval) \<Rightarrow> string \<Rightarrow> jsval" where
  "count_value result code =
     js_add
       (case Get result code of
          Own v \<Rightarrow> v
        | Inherited b \<Rightarrow> ToPrimitive b
        | Undefined \<Rightarrow> Num 0)
       (Num 1)"

section \<open>The script on a store\<close>

text \<open>
  Arrays and objects are mutable and passed by reference.  To say what a call does to
  the array it is given, the functions of the script are written a second time over an
  explicit store: a list of cells, a reference being an index into it.  A cell is an
  array of values or an object with its own properties; a value is a primitive or a
  reference.  \<^verbatim>\<open>[]\<close>, \<^verbatim>\<open>{}\<close>, an object literal and the array methods that return an
  array allocate a new cell at the end of the store; \<^verbatim>\<open>push\<close> and an assignment to a
  property overwrite a cell.  A call returns a value or throws, together with the
  store it leaves.
\<close>

type_synonym ref = nat

datatype val = Prim jsval | Ref ref

datatype object = Array "val list" | Object "string \<rightharpoonup> val"

type_synonym heap = "object list"

type_synonym 'a completion = "(error + 'a) \<times> heap"

text \<open>
  The types of the script say what kind of cell a reference leads to and what kind of
  value an array or a property holds.  Where the store holds something else the
  operations below throw a \<^verbatim>\<open>TypeError\<close>; the properties proved are about stores that
  hold what the types say, where this does not happen.
\<close>

definition new :: "object \<Rightarrow> heap \<Rightarrow> ref \<times> heap" where
  "new obj h = (length h, h @ [obj])"

definition lookup :: "heap \<Rightarrow> ref \<Rightarrow> object option" where
  "lookup h r = (if r < length h then Some (h ! r) else None)"

text \<open>\<^verbatim>\<open>array.push(v)\<close> puts \<open>v\<close> at the end of the array, in place.\<close>

definition push :: "ref \<Rightarrow> val \<Rightarrow> heap \<Rightarrow> unit completion" where
  "push array v h =
     (case lookup h array of
        Some (Array xs) \<Rightarrow> (Inr (), h[array := Array (xs @ [v])])
      | _ \<Rightarrow> (Inl TypeError, h))"

text \<open>
  \<^verbatim>\<open>for (const element of array) body\<close> asks the iterator of the array for one element
  after the other: at each step it reads the array as it is then, and ends when the
  index has reached the length the array has then.  So a body that made the array
  longer at every step would never end, and the loop is a partial function: \<open>None\<close> is
  the loop that does not end.  An exception of the body ends the loop.
\<close>

partial_function (option) for_of ::
  "(val \<Rightarrow> heap \<Rightarrow> unit completion) \<Rightarrow> ref \<Rightarrow> nat \<Rightarrow> heap \<Rightarrow> unit completion option" where
  "for_of body array i h =
     (case lookup h array of
        Some (Array xs) \<Rightarrow>
          if i < length xs
          then (case body (xs ! i) h of
                  (Inl e, h') \<Rightarrow> Some (Inl e, h')
                | (Inr _, h') \<Rightarrow> for_of body array (Suc i) h')
          else Some (Inr (), h)
      | _ \<Rightarrow> Some (Inl TypeError, h))"

declare for_of.simps [code]

text \<open>
  \<^verbatim>\<open>array.reduce(callbackfn, initialValue)\<close> reads the length once, before the first
  call, and then reads the element at each index below it from the array as it is
  then, skipping an index that the array no longer has.
\<close>

function array_reduce_from ::
  "(val \<Rightarrow> val \<Rightarrow> heap \<Rightarrow> val completion) \<Rightarrow> ref \<Rightarrow> nat \<Rightarrow> nat \<Rightarrow> val \<Rightarrow> heap \<Rightarrow> val completion" where
  "array_reduce_from callbackfn array len k accumulator h =
     (if k < len
      then (case lookup h array of
              Some (Array xs) \<Rightarrow>
                if k < length xs
                then (case callbackfn accumulator (xs ! k) h of
                        (Inl e, h') \<Rightarrow> (Inl e, h')
                      | (Inr v, h') \<Rightarrow> array_reduce_from callbackfn array len (Suc k) v h')
                else array_reduce_from callbackfn array len (Suc k) accumulator h
            | _ \<Rightarrow> (Inl TypeError, h))
      else (Inr accumulator, h))"
  by pat_completeness auto
termination
  by (relation "measure (\<lambda>(callbackfn, array, len, k, accumulator, h). len - k)") auto

declare array_reduce_from.simps [simp del]

definition array_reduce ::
  "(val \<Rightarrow> val \<Rightarrow> heap \<Rightarrow> val completion) \<Rightarrow> val \<Rightarrow> ref \<Rightarrow> heap \<Rightarrow> val completion" where
  "array_reduce callbackfn initialValue array h =
     (case lookup h array of
        Some (Array xs) \<Rightarrow> array_reduce_from callbackfn array (length xs) 0 initialValue h
      | _ \<Rightarrow> (Inl TypeError, h))"

text \<open>\<^verbatim>\<open>return result\<close> after a loop: the reference, unless the loop threw.\<close>

definition return_after :: "ref \<Rightarrow> unit completion option \<Rightarrow> val completion option" where
  "return_after result loop =
     (case loop of
        None \<Rightarrow> None
      | Some (Inl e, h) \<Rightarrow> Some (Inl e, h)
      | Some (Inr _, h) \<Rightarrow> Some (Inr (Ref result), h))"

text \<open>
  \<^verbatim>\<open>array.map(callbackfn)\<close> and \<^verbatim>\<open>array.filter(predicate)\<close> create the array they return
  before the first call and fill it while they go through the elements.  The callbacks
  of the script neither read nor write the store, so going through the elements is a
  recursion over the list read at the start; an exception of a callback ends it.
\<close>

fun map_completion :: "('a \<Rightarrow> error + 'b) \<Rightarrow> 'a list \<Rightarrow> error + 'b list" where
  "map_completion callbackfn [] = Inr []"
| "map_completion callbackfn (x # xs) =
     (case callbackfn x of
        Inl e \<Rightarrow> Inl e
      | Inr y \<Rightarrow> (case map_completion callbackfn xs of
                   Inl e \<Rightarrow> Inl e
                 | Inr ys \<Rightarrow> Inr (y # ys)))"

fun filter_completion :: "('a \<Rightarrow> error + bool) \<Rightarrow> 'a list \<Rightarrow> error + 'a list" where
  "filter_completion predicate [] = Inr []"
| "filter_completion predicate (x # xs) =
     (case predicate x of
        Inl e \<Rightarrow> Inl e
      | Inr keep \<Rightarrow> (case filter_completion predicate xs of
                      Inl e \<Rightarrow> Inl e
                    | Inr ys \<Rightarrow> Inr (if keep then x # ys else ys)))"

definition array_map :: "(val \<Rightarrow> error + val) \<Rightarrow> ref \<Rightarrow> heap \<Rightarrow> val completion" where
  "array_map callbackfn array h =
     (case lookup h array of
        Some (Array xs) \<Rightarrow>
          (let (a, h1) = new (Array []) h
           in case map_completion callbackfn xs of
                Inl e \<Rightarrow> (Inl e, h1)
              | Inr ys \<Rightarrow> (Inr (Ref a), h1[a := Array ys]))
      | _ \<Rightarrow> (Inl TypeError, h))"

definition array_filter :: "(val \<Rightarrow> error + bool) \<Rightarrow> ref \<Rightarrow> heap \<Rightarrow> val completion" where
  "array_filter predicate array h =
     (case lookup h array of
        Some (Array xs) \<Rightarrow>
          (let (a, h1) = new (Array []) h
           in case filter_completion predicate xs of
                Inl e \<Rightarrow> (Inl e, h1)
              | Inr ys \<Rightarrow> (Inr (Ref a), h1[a := Array ys]))
      | _ \<Rightarrow> (Inl TypeError, h))"

text \<open>
  The two string methods, called on a value: a value that is not a string has no such
  method, and the call throws.
\<close>

definition toUpperCase_call :: "(string \<Rightarrow> string) \<Rightarrow> val \<Rightarrow> error + val" where
  "toUpperCase_call toUpperCase element =
     (case element of
        Prim (Str s) \<Rightarrow> Inr (Prim (Str (toUpperCase s)))
      | _ \<Rightarrow> Inl TypeError)"

definition startsWith_call :: "val \<Rightarrow> string \<Rightarrow> error + bool" where
  "startsWith_call element searchString =
     (case element of
        Prim (Str s) \<Rightarrow> Inr (startsWith s searchString)
      | _ \<Rightarrow> Inl TypeError)"

text \<open>
  The patterns \<^verbatim>\<open>{ code, discount }\<close> and \<^verbatim>\<open>{ code }\<close> read the fields of an element,
  which by its type is an object with these fields as strings.
\<close>

definition string_field :: "heap \<Rightarrow> val \<Rightarrow> string \<Rightarrow> error + string" where
  "string_field h element name =
     (case element of
        Ref r \<Rightarrow>
          (case lookup h r of
             Some (Object props) \<Rightarrow>
               (case props name of
                  Some (Prim (Str s)) \<Rightarrow> Inr s
                | _ \<Rightarrow> Inl TypeError)
           | _ \<Rightarrow> Inl TypeError)
      | _ \<Rightarrow> Inl TypeError)"

text \<open>\<^verbatim>\<open>transformData\<close> and \<^verbatim>\<open>transformAndFilterData\<close>, as in the source above.\<close>

definition transformData_imperative_heap ::
  "(string \<Rightarrow> string) \<Rightarrow> ref \<Rightarrow> heap \<Rightarrow> val completion option" where
  "transformData_imperative_heap toUpperCase array h =
     (let (result, h1) = new (Array []) h
      in return_after result
           (for_of
              (\<lambda>element g.
                 case toUpperCase_call toUpperCase element of
                   Inl e \<Rightarrow> (Inl e, g)
                 | Inr v \<Rightarrow> push result v g)
              array 0 h1))"

definition transformData_declarative_heap ::
  "(string \<Rightarrow> string) \<Rightarrow> ref \<Rightarrow> heap \<Rightarrow> val completion" where
  "transformData_declarative_heap toUpperCase array h =
     array_map (\<lambda>element. toUpperCase_call toUpperCase element) array h"

definition transformAndFilterData_imperative_heap ::
  "(string \<Rightarrow> string) \<Rightarrow> ref \<Rightarrow> heap \<Rightarrow> val completion option" where
  "transformAndFilterData_imperative_heap toUpperCase array h =
     (let (result, h1) = new (Array []) h
      in return_after result
           (for_of
              (\<lambda>element g.
                 case startsWith_call element ''x'' of
                   Inl e \<Rightarrow> (Inl e, g)
                 | Inr starts \<Rightarrow>
                     if \<not> starts then (Inr (), g)
                     else (case toUpperCase_call toUpperCase element of
                             Inl e \<Rightarrow> (Inl e, g)
                           | Inr v \<Rightarrow> push result v g))
              array 0 h1))"

definition transformAndFilterData_declarative_heap ::
  "(string \<Rightarrow> string) \<Rightarrow> ref \<Rightarrow> heap \<Rightarrow> val completion" where
  "transformAndFilterData_declarative_heap toUpperCase array h =
     (case array_filter (\<lambda>element. startsWith_call element ''x'') array h of
        (Inr (Ref filtered), h1) \<Rightarrow>
          array_map (\<lambda>element. toUpperCase_call toUpperCase element) filtered h1
      | (Inr (Prim _), h1) \<Rightarrow> (Inl TypeError, h1)
      | (Inl e, h1) \<Rightarrow> (Inl e, h1))"

text \<open>
  \<^verbatim>\<open>result[discount]?.concat(code) ?? [code]\<close>: \<^verbatim>\<open>concat\<close> allocates the array it
  returns and leaves the array it is called on as it is; \<^verbatim>\<open>[code]\<close> allocates too.
  \<^verbatim>\<open>(result[code] ?? 0) + 1\<close> only reads.
\<close>

definition group_value_heap :: "ref \<Rightarrow> string \<Rightarrow> string \<Rightarrow> heap \<Rightarrow> val completion" where
  "group_value_heap result discount code h =
     (case lookup h result of
        Some (Object props) \<Rightarrow>
          (case Get props discount of
             Own (Ref a) \<Rightarrow>
               (case lookup h a of
                  Some (Array codes) \<Rightarrow>
                    (let (a', h') = new (Array (codes @ [Prim (Str code)])) h
                     in (Inr (Ref a'), h'))
                | _ \<Rightarrow> (Inl TypeError, h))
           | Own (Prim _) \<Rightarrow> (Inl TypeError, h)
           | Inherited _ \<Rightarrow> (Inl TypeError, h)
           | Undefined \<Rightarrow>
               (let (a', h') = new (Array [Prim (Str code)]) h
                in (Inr (Ref a'), h')))
      | _ \<Rightarrow> (Inl TypeError, h))"

definition count_value_heap :: "ref \<Rightarrow> string \<Rightarrow> heap \<Rightarrow> error + val" where
  "count_value_heap result code h =
     (case lookup h result of
        Some (Object props) \<Rightarrow>
          (case Get props code of
             Own (Prim v) \<Rightarrow> Inr (Prim (js_add v (Num 1)))
           | Own (Ref _) \<Rightarrow> Inl TypeError
           | Inherited b \<Rightarrow> Inr (Prim (js_add (ToPrimitive b) (Num 1)))
           | Undefined \<Rightarrow> Inr (Prim (js_add (Num 0) (Num 1))))
      | _ \<Rightarrow> Inl TypeError)"

text \<open>
  \<^verbatim>\<open>result[key] = v\<close> overwrites the cell of \<open>result\<close>.  With a reference for \<open>v\<close> the
  script reaches it only after \<^verbatim>\<open>result[key]?.concat\<close> has not thrown, that is with a
  key that is an own property or is found nowhere.
  \<^verbatim>\<open>{...source, [key]: v}\<close> allocates a new object with the own properties of \<open>source\<close>,
  evaluates \<open>v\<close>, and defines the property on the new object.
\<close>

definition assign :: "ref \<Rightarrow> string \<Rightarrow> val \<Rightarrow> heap \<Rightarrow> unit completion" where
  "assign result key v h =
     (case lookup h result of
        Some (Object props) \<Rightarrow>
          (case v of
             Prim _ \<Rightarrow> (Inr (), h[result := Object (Set_primitive props key v)])
           | Ref _ \<Rightarrow> (Inr (), h[result := Object (props(key \<mapsto> v))]))
      | _ \<Rightarrow> (Inl TypeError, h))"

definition object_spread :: "val \<Rightarrow> heap \<Rightarrow> val completion" where
  "object_spread source h =
     (case source of
        Ref r \<Rightarrow>
          (case lookup h r of
             Some (Object props) \<Rightarrow> (let (o', h') = new (Object props) h in (Inr (Ref o'), h'))
           | _ \<Rightarrow> (Inl TypeError, h))
      | Prim _ \<Rightarrow> (Inl TypeError, h))"

definition define_property :: "val \<Rightarrow> string \<Rightarrow> val \<Rightarrow> heap \<Rightarrow> val completion" where
  "define_property target key v h =
     (case target of
        Ref r \<Rightarrow>
          (case lookup h r of
             Some (Object props) \<Rightarrow> (Inr target, h[r := Object (spread_with props key v)])
           | _ \<Rightarrow> (Inl TypeError, h))
      | Prim _ \<Rightarrow> (Inl TypeError, h))"

text \<open>\<^verbatim>\<open>groupData\<close> and \<^verbatim>\<open>count\<close>, whose source is quoted with their forms on values below.\<close>

definition groupData_imperative_heap :: "ref \<Rightarrow> heap \<Rightarrow> val completion option" where
  "groupData_imperative_heap discounts h =
     (let (result, h1) = new (Object Map.empty) h
      in return_after result
           (for_of
              (\<lambda>element g.
                 case string_field g element ''code'' of
                   Inl e \<Rightarrow> (Inl e, g)
                 | Inr code \<Rightarrow>
                     (case string_field g element ''discount'' of
                        Inl e \<Rightarrow> (Inl e, g)
                      | Inr discount \<Rightarrow>
                          (case group_value_heap result discount code g of
                             (Inl e, g') \<Rightarrow> (Inl e, g')
                           | (Inr v, g') \<Rightarrow> assign result discount v g')))
              discounts 0 h1))"

definition groupData_declarative_heap :: "ref \<Rightarrow> heap \<Rightarrow> val completion" where
  "groupData_declarative_heap discounts h =
     (let (initialValue, h1) = new (Object Map.empty) h
      in array_reduce
           (\<lambda>grouped element g.
              case string_field g element ''discount'' of
                Inl e \<Rightarrow> (Inl e, g)
              | Inr discount \<Rightarrow>
                  (case string_field g element ''code'' of
                     Inl e \<Rightarrow> (Inl e, g)
                   | Inr code \<Rightarrow>
                       (case object_spread grouped g of
                          (Inl e, g1) \<Rightarrow> (Inl e, g1)
                        | (Inr literal, g1) \<Rightarrow>
                            (case grouped of
                               Prim _ \<Rightarrow> (Inl TypeError, g1)
                             | Ref r \<Rightarrow>
                                 (case group_value_heap r discount code g1 of
                                    (Inl e, g2) \<Rightarrow> (Inl e, g2)
                                  | (Inr v, g2) \<Rightarrow> define_property literal discount v g2)))))
           (Ref initialValue) discounts h1)"

definition count_imperative_heap :: "ref \<Rightarrow> heap \<Rightarrow> val completion option" where
  "count_imperative_heap orders h =
     (let (result, h1) = new (Object Map.empty) h
      in return_after result
           (for_of
              (\<lambda>element g.
                 case string_field g element ''code'' of
                   Inl e \<Rightarrow> (Inl e, g)
                 | Inr code \<Rightarrow>
                     (case count_value_heap result code g of
                        Inl e \<Rightarrow> (Inl e, g)
                      | Inr v \<Rightarrow> assign result code v g))
              orders 0 h1))"

definition count_declarative_heap :: "ref \<Rightarrow> heap \<Rightarrow> val completion" where
  "count_declarative_heap orders h =
     (let (initialValue, h1) = new (Object Map.empty) h
      in array_reduce
           (\<lambda>counts element g.
              case string_field g element ''code'' of
                Inl e \<Rightarrow> (Inl e, g)
              | Inr code \<Rightarrow>
                  (case object_spread counts g of
                     (Inl e, g1) \<Rightarrow> (Inl e, g1)
                   | (Inr literal, g1) \<Rightarrow>
                       (case counts of
                          Prim _ \<Rightarrow> (Inl TypeError, g1)
                        | Ref r \<Rightarrow>
                            (case count_value_heap r code g1 of
                               Inl e \<Rightarrow> (Inl e, g1)
                             | Inr v \<Rightarrow> define_property literal code v g1))))
           (Ref initialValue) orders h1)"

section \<open>The element records\<close>

text \<open>The element types \<^verbatim>\<open>{ code: string; discount: string }\<close> and
  \<^verbatim>\<open>{ code: string; order: string }\<close>.\<close>

record discount_record =
  code :: string
  discount :: string

record order_record =
  code :: string
  order :: string

section \<open>groupData\<close>

text \<open>
  \<^verbatim>\<open>
  function imperative(
    discounts: { code: string; discount: string }[]
  ): Record<string, string[]> {
    const result: Record<string, string[]> = {};
    for (const { code, discount } of discounts) {
      result[discount] = result[discount]?.concat(code) ?? [code];
    }
    return result;
  }
  function declarative(
    discounts: { code: string; discount: string }[]
  ): Record<string, string[]> {
    return discounts.reduce(
      (grouped, { discount, code }) => ({
        ...grouped,
        [discount]: grouped[discount]?.concat(code) ?? [code],
      }),
      {} as Record<string, string[]>
    );
  }
  \<close>
  The assignment is reached only when the update expression has not thrown, that is
  with a key that is an own property or is found nowhere; there it writes the own
  property.
\<close>

fun groupData_imperative_loop ::
  "discount_record list \<Rightarrow> (string \<rightharpoonup> string list) \<Rightarrow> error + (string \<rightharpoonup> string list)" where
  "groupData_imperative_loop [] result = Inr result"
| "groupData_imperative_loop (d # rest) result =
     (case group_value result (discount d) (discount_record.code d) of
        Inl e \<Rightarrow> Inl e
      | Inr v \<Rightarrow> groupData_imperative_loop rest (result(discount d \<mapsto> v)))"

definition groupData_imperative :: "discount_record list \<Rightarrow> error + (string \<rightharpoonup> string list)" where
  "groupData_imperative discounts = groupData_imperative_loop discounts Map.empty"

definition groupData_declarative :: "discount_record list \<Rightarrow> error + (string \<rightharpoonup> string list)" where
  "groupData_declarative discounts =
     reduce
       (\<lambda>grouped d.
          case group_value grouped (discount d) (discount_record.code d) of
            Inl e \<Rightarrow> Inl e
          | Inr v \<Rightarrow> Inr (spread_with grouped (discount d) v))
       Map.empty
       discounts"

section \<open>count\<close>

text \<open>
  \<^verbatim>\<open>
  function imperative(
    orders: { code: string; order: string }[]
  ): Record<string, number> {
    const result: Record<string, number> = {};
    for (const { code } of orders) {
      result[code] = (result[code] ?? 0) + 1;
    }
    return result;
  }
  function declarative(
    orders: { code: string; order: string }[]
  ): Record<string, number> {
    return orders.reduce(
      (counts, { code }) => ({
        ...counts,
        [code]: (counts[code] ?? 0) + 1,
      }),
      {} as Record<string, number>
    );
  }
  \<close>
  The loop cannot throw, so the imperative form returns the object itself; the
  declarative form goes through \<open>reduce\<close> and has its result type.
\<close>

fun count_imperative_loop :: "order_record list \<Rightarrow> (string \<rightharpoonup> jsval) \<Rightarrow> (string \<rightharpoonup> jsval)" where
  "count_imperative_loop [] result = result"
| "count_imperative_loop (r # rest) result =
     count_imperative_loop rest
       (Set_primitive result (order_record.code r) (count_value result (order_record.code r)))"

definition count_imperative :: "order_record list \<Rightarrow> (string \<rightharpoonup> jsval)" where
  "count_imperative orders = count_imperative_loop orders Map.empty"

definition count_declarative :: "order_record list \<Rightarrow> error + (string \<rightharpoonup> jsval)" where
  "count_declarative orders =
     reduce
       (\<lambda>counts r.
          Inr (spread_with counts (order_record.code r) (count_value counts (order_record.code r))))
       Map.empty
       orders"

section \<open>What the aggregations are meant to return\<close>

text \<open>
  The grouping and the counting as the comments of the script describe them: under each
  discount the codes of the records with that discount, in the order of the input, and
  under each code the number of records with that code.  A key is inherited when
  \<^verbatim>\<open>Object.prototype\<close> has a property of that name.
\<close>

definition inherited_key :: "string \<Rightarrow> bool" where
  "inherited_key key = (map_of Object_prototype key \<noteq> None)"

definition group_by_discount :: "discount_record list \<Rightarrow> (string \<rightharpoonup> string list)" where
  "group_by_discount discounts =
     (\<lambda>key. if key \<in> discount ` set discounts
            then Some (map discount_record.code (filter (\<lambda>d. discount d = key) discounts))
            else None)"

definition count_by_code :: "order_record list \<Rightarrow> (string \<rightharpoonup> jsval)" where
  "count_by_code orders =
     (\<lambda>key. if key \<in> order_record.code ` set orders
            then Some (Num (int (count_list (map order_record.code orders) key)))
            else None)"

text \<open>The same two, continuing from an object that already has properties.\<close>

definition group_onto :: "(string \<rightharpoonup> string list) \<Rightarrow> discount_record list \<Rightarrow> (string \<rightharpoonup> string list)" where
  "group_onto result discounts =
     (\<lambda>key. if key \<in> discount ` set discounts
            then Some ((case result key of Some codes \<Rightarrow> codes | None \<Rightarrow> []) @
                       map discount_record.code (filter (\<lambda>d. discount d = key) discounts))
            else result key)"

definition count_onto :: "(string \<rightharpoonup> jsval) \<Rightarrow> order_record list \<Rightarrow> (string \<rightharpoonup> jsval)" where
  "count_onto result orders =
     (\<lambda>key. if key \<in> order_record.code ` set orders
            then Some (Num ((case result key of Some (Num n) \<Rightarrow> n | _ \<Rightarrow> 0) +
                            int (count_list (map order_record.code orders) key)))
            else result key)"

section \<open>The data of the two aggregation examples\<close>

text \<open>
  The records in the comment above \<^verbatim>\<open>groupData\<close>, the grouping they have, and the
  mapping \<^verbatim>\<open>{"1": ["A","C","E","F"], "2": ["B","E"]}\<close>.
\<close>

definition scenario_4 :: "discount_record list" where
  "scenario_4 =
     [\<lparr>discount_record.code = ''A'', discount = ''1''\<rparr>,
      \<lparr>discount_record.code = ''B'', discount = ''2''\<rparr>,
      \<lparr>discount_record.code = ''C'', discount = ''1''\<rparr>,
      \<lparr>discount_record.code = ''E'', discount = ''2''\<rparr>,
      \<lparr>discount_record.code = ''F'', discount = ''1''\<rparr>]"

definition scenario_4_grouped :: "string \<rightharpoonup> string list" where
  "scenario_4_grouped = [''1'' \<mapsto> [''A'', ''C'', ''F''], ''2'' \<mapsto> [''B'', ''E'']]"

definition scenario_4_stated :: "string \<rightharpoonup> string list" where
  "scenario_4_stated = [''1'' \<mapsto> [''A'', ''C'', ''E'', ''F''], ''2'' \<mapsto> [''B'', ''E'']]"

text \<open>The records in the comment above \<^verbatim>\<open>count\<close>, and the counts they have.\<close>

definition scenario_5 :: "order_record list" where
  "scenario_5 =
     [\<lparr>order_record.code = ''A'', order = ''ASDF-123456''\<rparr>,
      \<lparr>order_record.code = ''B'', order = ''ASDF-123457''\<rparr>,
      \<lparr>order_record.code = ''B'', order = ''ASDF-123458''\<rparr>,
      \<lparr>order_record.code = ''A'', order = ''ASDF-123459''\<rparr>,
      \<lparr>order_record.code = ''B'', order = ''ASDF-123451''\<rparr>]"

definition scenario_5_counted :: "string \<rightharpoonup> jsval" where
  "scenario_5_counted = [''A'' \<mapsto> Num 2, ''B'' \<mapsto> Num 3]"

section \<open>A store with the data of the comments\<close>

text \<open>
  Cell 0 is the array \<^verbatim>\<open>["x", "y", "z"]\<close>; cells 1 to 5 are the records of the
  grouping example and cell 6 the array of them; cells 7 to 11 are the records of the
  counting example and cell 12 the array of them.
\<close>

definition example_store :: heap where
  "example_store =
     [Array [Prim (Str ''x''), Prim (Str ''y''), Prim (Str ''z'')],
      Object [''code'' \<mapsto> Prim (Str ''A''), ''discount'' \<mapsto> Prim (Str ''1'')],
      Object [''code'' \<mapsto> Prim (Str ''B''), ''discount'' \<mapsto> Prim (Str ''2'')],
      Object [''code'' \<mapsto> Prim (Str ''C''), ''discount'' \<mapsto> Prim (Str ''1'')],
      Object [''code'' \<mapsto> Prim (Str ''E''), ''discount'' \<mapsto> Prim (Str ''2'')],
      Object [''code'' \<mapsto> Prim (Str ''F''), ''discount'' \<mapsto> Prim (Str ''1'')],
      Array [Ref 1, Ref 2, Ref 3, Ref 4, Ref 5],
      Object [''order'' \<mapsto> Prim (Str ''ASDF-123456''), ''code'' \<mapsto> Prim (Str ''A'')],
      Object [''order'' \<mapsto> Prim (Str ''ASDF-123457''), ''code'' \<mapsto> Prim (Str ''B'')],
      Object [''order'' \<mapsto> Prim (Str ''ASDF-123458''), ''code'' \<mapsto> Prim (Str ''B'')],
      Object [''order'' \<mapsto> Prim (Str ''ASDF-123459''), ''code'' \<mapsto> Prim (Str ''A'')],
      Object [''order'' \<mapsto> Prim (Str ''ASDF-123451''), ''code'' \<mapsto> Prim (Str ''B'')],
      Array [Ref 7, Ref 8, Ref 9, Ref 10, Ref 11]]"

section \<open>What a call leaves in the store\<close>

text \<open>
  \<open>keeps n h h'\<close>: the store \<open>h'\<close> is \<open>h\<close> with its first \<open>n\<close> cells as they were, and
  possibly more cells.  \<open>allocated n h v\<close>: the value \<open>v\<close> is a reference to a cell of
  \<open>h\<close> at \<open>n\<close> or later.  \<open>closed n h\<close>: no cell of \<open>h\<close> at \<open>n\<close> or later holds a
  reference to a cell before \<open>n\<close>.
\<close>

definition keeps :: "nat \<Rightarrow> heap \<Rightarrow> heap \<Rightarrow> bool" where
  "keeps n h h' \<longleftrightarrow> length h \<le> length h' \<and> take n h' = take n h"

definition allocated :: "nat \<Rightarrow> heap \<Rightarrow> val \<Rightarrow> bool" where
  "allocated n h v = (case v of Ref r \<Rightarrow> n \<le> r \<and> r < length h | Prim _ \<Rightarrow> False)"

fun refs_of :: "object \<Rightarrow> ref set" where
  "refs_of (Array xs) = {a. Ref a \<in> set xs}"
| "refs_of (Object props) = {a. Ref a \<in> ran props}"

definition closed :: "nat \<Rightarrow> heap \<Rightarrow> bool" where
  "closed n h \<longleftrightarrow> (\<forall>r a. n \<le> r \<and> r < length h \<and> a \<in> refs_of (h ! r) \<longrightarrow> n \<le> a)"

text \<open>
  A call that starts in the store \<open>h\<close> and ends in \<open>h'\<close> leaves what it was given
  unchanged when every cell of \<open>h\<close> is in \<open>h'\<close> as it was.  What it returns is freshly
  constructed when it is a reference to a cell allocated during the call and nothing
  allocated during the call refers to a cell of \<open>h\<close>.
\<close>

definition unchanged :: "heap \<Rightarrow> heap \<Rightarrow> bool" where
  "unchanged h h' \<longleftrightarrow> length h \<le> length h' \<and> (\<forall>r < length h. h' ! r = h ! r)"

definition freshly_constructed :: "heap \<Rightarrow> heap \<Rightarrow> val \<Rightarrow> bool" where
  "freshly_constructed h h' v \<longleftrightarrow> allocated (length h) h' v \<and> closed (length h) h'"

definition leaves_input_unchanged :: "heap \<Rightarrow> val completion \<Rightarrow> bool" where
  "leaves_input_unchanged h outcome =
     (case outcome of
        (Inl e, h') \<Rightarrow> unchanged h h'
      | (Inr v, h') \<Rightarrow> unchanged h h' \<and> freshly_constructed h h' v)"

text \<open>
  A call that started in \<open>h\<close> returns fresh when it returns a value, leaves what it
  was given unchanged and the value is freshly constructed; it throws unchanged when it
  throws and leaves what it was given unchanged.
\<close>

definition returns_fresh :: "heap \<Rightarrow> val completion \<Rightarrow> bool" where
  "returns_fresh h outcome \<longleftrightarrow>
     (\<exists>v h'. outcome = (Inr v, h') \<and> unchanged h h' \<and> freshly_constructed h h' v)"

definition throws_unchanged :: "heap \<Rightarrow> val completion \<Rightarrow> bool" where
  "throws_unchanged h outcome \<longleftrightarrow> (\<exists>e h'. outcome = (Inl e, h') \<and> unchanged h h')"

section \<open>How the store holds the arguments and the results\<close>

text \<open>
  An array of strings is a cell with the strings as primitive values.  An array of
  records is a cell of references to objects, one object for each record, that have
  the fields of the record as own properties (and maybe more).  A grouping is an object
  whose properties refer to arrays of strings; a counting is an object whose properties
  are primitive values.
\<close>

definition string_array :: "string list \<Rightarrow> object" where
  "string_array S = Array (map (\<lambda>s. Prim (Str s)) S)"

definition string_array_at :: "heap \<Rightarrow> ref \<Rightarrow> string list \<Rightarrow> bool" where
  "string_array_at h array S \<longleftrightarrow> array < length h \<and> h ! array = string_array S"

definition discount_record_at :: "heap \<Rightarrow> ref \<Rightarrow> discount_record \<Rightarrow> bool" where
  "discount_record_at h a d \<longleftrightarrow>
     a < length h \<and>
     (\<exists>props. h ! a = Object props \<and>
        props ''code'' = Some (Prim (Str (discount_record.code d))) \<and>
        props ''discount'' = Some (Prim (Str (discount d))))"

definition order_record_at :: "heap \<Rightarrow> ref \<Rightarrow> order_record \<Rightarrow> bool" where
  "order_record_at h a r \<longleftrightarrow>
     a < length h \<and>
     (\<exists>props. h ! a = Object props \<and>
        props ''code'' = Some (Prim (Str (order_record.code r))) \<and>
        props ''order'' = Some (Prim (Str (order r))))"

definition discount_array_at :: "heap \<Rightarrow> ref \<Rightarrow> discount_record list \<Rightarrow> bool" where
  "discount_array_at h array discounts \<longleftrightarrow>
     array < length h \<and>
     (\<exists>refs. h ! array = Array (map Ref refs) \<and> length refs = length discounts \<and>
        (\<forall>i < length discounts. discount_record_at h (refs ! i) (discounts ! i)))"

definition order_array_at :: "heap \<Rightarrow> ref \<Rightarrow> order_record list \<Rightarrow> bool" where
  "order_array_at h array orders \<longleftrightarrow>
     array < length h \<and>
     (\<exists>refs. h ! array = Array (map Ref refs) \<and> length refs = length orders \<and>
        (\<forall>i < length orders. order_record_at h (refs ! i) (orders ! i)))"

definition represents_groups :: "heap \<Rightarrow> val \<Rightarrow> (string \<rightharpoonup> string list) \<Rightarrow> bool" where
  "represents_groups h v grouped \<longleftrightarrow>
     (\<exists>r props. v = Ref r \<and> r < length h \<and> h ! r = Object props \<and>
        (\<forall>key. case grouped key of
                  None \<Rightarrow> props key = None
                | Some codes \<Rightarrow>
                    (\<exists>a. props key = Some (Ref a) \<and> a < length h \<and> h ! a = string_array codes)))"

definition represents_counts :: "heap \<Rightarrow> val \<Rightarrow> (string \<rightharpoonup> jsval) \<Rightarrow> bool" where
  "represents_counts h v counts \<longleftrightarrow>
     (\<exists>r. v = Ref r \<and> r < length h \<and> h ! r = Object (map_option Prim \<circ> counts))"

chapter \<open>Properties\<close>

section \<open>The two forms of each task\<close>

lemma transformData_imperative_loop_eq:
  "transformData_imperative_loop up array result = result @ map up array"
  by (induction array arbitrary: result) simp_all

lemma transformData_imperative_eq_declarative:
  "transformData_imperative up array = transformData_declarative up array"
  by (simp add: transformData_imperative_def transformData_declarative_def
      transformData_imperative_loop_eq)

lemma transformAndFilterData_imperative_loop_eq:
  "transformAndFilterData_imperative_loop up array result =
     result @ map up (filter (\<lambda>element. startsWith element ''x'') array)"
  by (induction array arbitrary: result) simp_all

lemma transformAndFilterData_imperative_eq_declarative:
  "transformAndFilterData_imperative up array = transformAndFilterData_declarative up array"
  by (simp add: transformAndFilterData_imperative_def transformAndFilterData_declarative_def
      transformAndFilterData_imperative_loop_eq)

lemma groupData_imperative_loop_eq_reduce:
  "groupData_imperative_loop discounts result =
   reduce (\<lambda>grouped d.
          case group_value grouped (discount d) (discount_record.code d) of
            Inl e \<Rightarrow> Inl e
          | Inr v \<Rightarrow> Inr (spread_with grouped (discount d) v)) result discounts"
  by (induction discounts arbitrary: result) (simp_all add: spread_with_def split: sum.splits)

lemma groupData_imperative_eq_declarative:
  "groupData_imperative discounts = groupData_declarative discounts"
  by (simp add: groupData_imperative_def groupData_declarative_def
      groupData_imperative_loop_eq_reduce)

lemma Set_primitive_not_proto:
  "key \<noteq> ''__proto__'' \<Longrightarrow> Set_primitive obj key v = obj(key \<mapsto> v)"
  by (simp add: Set_primitive_def Object_prototype_def split: option.splits)

lemma count_imperative_loop_eq_reduce:
  "\<forall>r \<in> set orders. order_record.code r \<noteq> ''__proto__'' \<Longrightarrow>
   Inr (count_imperative_loop orders result) =
   reduce (\<lambda>counts r. Inr (spread_with counts (order_record.code r)
             (count_value counts (order_record.code r)))) result orders"
  by (induction orders arbitrary: result) (simp_all add: spread_with_def Set_primitive_not_proto)

lemma count_imperative_eq_declarative:
  "\<forall>r \<in> set orders. order_record.code r \<noteq> ''__proto__'' \<Longrightarrow>
   Inr (count_imperative orders) = count_declarative orders"
  by (simp add: count_imperative_def count_declarative_def count_imperative_loop_eq_reduce)

section \<open>Keys that are not inherited\<close>

lemma Get_not_inherited:
  "\<not> inherited_key key \<Longrightarrow> Get obj key = (case obj key of Some v \<Rightarrow> Own v | None \<Rightarrow> Undefined)"
  by (simp add: Get_def inherited_key_def split: option.splits)

lemma group_value_not_inherited:
  "\<not> inherited_key key \<Longrightarrow>
   group_value obj key c = Inr ((case obj key of Some codes \<Rightarrow> codes | None \<Rightarrow> []) @ [c])"
  by (simp add: group_value_def Get_not_inherited split: option.splits)

lemma count_value_not_inherited:
  "\<not> inherited_key key \<Longrightarrow>
   count_value obj key = js_add (case obj key of Some v \<Rightarrow> v | None \<Rightarrow> Num 0) (Num 1)"
  by (simp add: count_value_def Get_not_inherited split: option.splits)

lemma groupData_imperative_loop_group_onto:
  "\<forall>d \<in> set discounts. \<not> inherited_key (discount d) \<Longrightarrow>
   groupData_imperative_loop discounts result = Inr (group_onto result discounts)"
proof (induction discounts arbitrary: result)
  case Nil
  then show ?case by (simp add: group_onto_def)
next
  case (Cons d ds)
  let ?v = "(case result (discount d) of Some codes \<Rightarrow> codes | None \<Rightarrow> []) @ [discount_record.code d]"
  from Cons.prems have safe: "\<not> inherited_key (discount d)"
    and rest: "\<forall>d \<in> set ds. \<not> inherited_key (discount d)" by simp_all
  have "groupData_imperative_loop (d # ds) result =
        groupData_imperative_loop ds (result(discount d \<mapsto> ?v))"
    using safe by (simp add: group_value_not_inherited)
  also have "\<dots> = Inr (group_onto (result(discount d \<mapsto> ?v)) ds)"
    using Cons.IH [OF rest] .
  also have "group_onto (result(discount d \<mapsto> ?v)) ds = group_onto result (d # ds)"
  proof (rule ext)
    fix key
    have none: "filter (\<lambda>d. discount d = key) ds = []" if "key \<notin> discount ` set ds"
      using that by (auto simp: filter_empty_conv)
    show "group_onto (result(discount d \<mapsto> ?v)) ds key = group_onto result (d # ds) key"
    proof (cases "key \<in> discount ` set ds")
      case True
      then show ?thesis by (simp add: group_onto_def)
    next
      case False
      with none show ?thesis by (auto simp: group_onto_def)
    qed
  qed
  finally show ?case .
qed

lemma groupData_groups_by_discount:
  assumes "\<forall>d \<in> set discounts. \<not> inherited_key (discount d)"
  shows "groupData_imperative discounts = Inr (group_by_discount discounts)"
    and "groupData_declarative discounts = Inr (group_by_discount discounts)"
proof -
  have "group_onto Map.empty discounts = group_by_discount discounts"
    by (rule ext) (simp add: group_onto_def group_by_discount_def)
  with groupData_imperative_loop_group_onto [OF assms, of Map.empty]
  show "groupData_imperative discounts = Inr (group_by_discount discounts)"
    by (simp add: groupData_imperative_def)
  then show "groupData_declarative discounts = Inr (group_by_discount discounts)"
    by (simp add: groupData_imperative_eq_declarative)
qed

lemma reduce_count_onto:
  "\<forall>r \<in> set orders. \<not> inherited_key (order_record.code r) \<Longrightarrow>
   \<forall>key v. result key = Some v \<longrightarrow> (\<exists>n. v = Num n) \<Longrightarrow>
   reduce (\<lambda>counts r. Inr (spread_with counts (order_record.code r)
             (count_value counts (order_record.code r)))) result orders =
   Inr (count_onto result orders)"
proof (induction orders arbitrary: result)
  case Nil
  then show ?case by (simp add: count_onto_def)
next
  case (Cons r rs)
  let ?k = "order_record.code r"
  let ?n = "(case result ?k of Some (Num n) \<Rightarrow> n | _ \<Rightarrow> 0) + 1"
  let ?f = "\<lambda>counts r. Inr (spread_with counts (order_record.code r)
             (count_value counts (order_record.code r))) :: error + (string \<rightharpoonup> jsval)"
  from Cons.prems have safe: "\<not> inherited_key ?k"
    and rest: "\<forall>r \<in> set rs. \<not> inherited_key (order_record.code r)" by simp_all
  have val: "count_value result ?k = Num ?n"
  proof (cases "result ?k")
    case None
    then show ?thesis using safe by (simp add: count_value_not_inherited)
  next
    case (Some v)
    with Cons.prems(2) obtain n where "v = Num n" by blast
    with Some show ?thesis using safe by (simp add: count_value_not_inherited)
  qed
  have nums: "\<forall>key v. (result(?k \<mapsto> Num ?n)) key = Some v \<longrightarrow> (\<exists>n. v = Num n)"
    using Cons.prems(2) by auto
  have "reduce ?f result (r # rs) = reduce ?f (result(?k \<mapsto> Num ?n)) rs"
    by (simp add: val spread_with_def)
  also have "\<dots> = Inr (count_onto (result(?k \<mapsto> Num ?n)) rs)"
    using Cons.IH [OF rest nums] .
  also have "count_onto (result(?k \<mapsto> Num ?n)) rs = count_onto result (r # rs)"
  proof (rule ext)
    fix key
    have none: "count_list (map order_record.code rs) key = 0"
      if "key \<notin> order_record.code ` set rs"
      using that by (simp add: count_list_0_iff)
    show "count_onto (result(?k \<mapsto> Num ?n)) rs key = count_onto result (r # rs) key"
    proof (cases "key \<in> order_record.code ` set rs")
      case True
      then show ?thesis by (simp add: count_onto_def)
    next
      case False
      with none show ?thesis by (auto simp: count_onto_def)
    qed
  qed
  finally show ?case .
qed

lemma count_counts_by_code:
  assumes "\<forall>r \<in> set orders. \<not> inherited_key (order_record.code r)"
  shows "count_declarative orders = Inr (count_by_code orders)"
    and "count_imperative orders = count_by_code orders"
proof -
  have "count_onto Map.empty orders = count_by_code orders"
    by (rule ext) (simp add: count_onto_def count_by_code_def)
  with reduce_count_onto [OF assms, of Map.empty]
  show d: "count_declarative orders = Inr (count_by_code orders)"
    by (simp add: count_declarative_def)
  from assms have "\<forall>r \<in> set orders. order_record.code r \<noteq> ''__proto__''"
    by (auto simp: inherited_key_def Object_prototype_def)
  from count_imperative_eq_declarative [OF this] d
  show "count_imperative orders = count_by_code orders" by simp
qed

lemma sum_count_by_code:
  "(\<Sum>key \<in> dom (count_by_code orders).
      case count_by_code orders key of Some (Num n) \<Rightarrow> n | _ \<Rightarrow> 0) = int (length orders)"
proof -
  let ?codes = "map order_record.code orders"
  have dom: "dom (count_by_code orders) = set ?codes"
    by (auto simp: count_by_code_def dom_def)
  have "(\<Sum>key \<in> set ?codes. case count_by_code orders key of Some (Num n) \<Rightarrow> n | _ \<Rightarrow> 0) =
        (\<Sum>key \<in> set ?codes. int (count_list ?codes key))"
    by (rule sum.cong) (simp_all add: count_by_code_def)
  also have "\<dots> = int (\<Sum>key \<in> set ?codes. count_list ?codes key)" by simp
  also have "(\<Sum>key \<in> set ?codes. count_list ?codes key) = length ?codes"
    by (rule sum_count_set) simp_all
  finally show ?thesis using dom by simp
qed

lemma scenario_4_safe: "\<forall>d \<in> set scenario_4. \<not> inherited_key (discount d)"
  by (simp add: scenario_4_def inherited_key_def Object_prototype_def)

lemma scenario_4_group_by_discount: "group_by_discount scenario_4 = scenario_4_grouped"
  by (rule ext) (simp add: group_by_discount_def scenario_4_def scenario_4_grouped_def)

lemma scenario_4_stated_differs: "scenario_4_grouped \<noteq> scenario_4_stated"
proof
  assume "scenario_4_grouped = scenario_4_stated"
  then have "scenario_4_grouped ''1'' = scenario_4_stated ''1''" by simp
  then show False by (simp add: scenario_4_grouped_def scenario_4_stated_def)
qed

lemma scenario_5_safe: "\<forall>r \<in> set scenario_5. \<not> inherited_key (order_record.code r)"
  by (simp add: scenario_5_def inherited_key_def Object_prototype_def)

lemma scenario_5_count_by_code: "count_by_code scenario_5 = scenario_5_counted"
  by (rule ext) (simp add: count_by_code_def scenario_5_def scenario_5_counted_def)

lemma scenario_5_counting:
  "count_imperative scenario_5 = scenario_5_counted \<and>
   count_declarative scenario_5 = Inr scenario_5_counted"
  using count_counts_by_code [OF scenario_5_safe] by (simp add: scenario_5_count_by_code)

lemma example_map_value: "example_map ascii_toUpperCase = [''A'', ''B'', ''C'', ''D'']"
  by (simp add: example_map_def ascii_toUpperCase_def ascii_toUpperCase_char_def)

lemma example_filter_value: "example_filter = [3, 4]"
  by (simp add: example_filter_def)


lemma startsWith_x: "startsWith s ''x'' \<longleftrightarrow> (\<exists>t. s = CHR ''x'' # t)"
  by (cases s) (auto simp: startsWith_def)

lemma count_imperative_loop_codes:
  "map order_record.code xs = map order_record.code ys \<Longrightarrow>
   count_imperative_loop xs result = count_imperative_loop ys result"
proof (induction xs arbitrary: ys result)
  case Nil
  then show ?case by simp
next
  case (Cons x xs)
  then obtain y ys' where ys: "ys = y # ys'" by (cases ys) auto
  with Cons.prems have "order_record.code x = order_record.code y"
    and "map order_record.code xs = map order_record.code ys'" by simp_all
  with Cons.IH [of ys'] ys show ?case by simp
qed

lemma reduce_count_codes:
  "map order_record.code xs = map order_record.code ys \<Longrightarrow>
   reduce (\<lambda>counts r. Inr (spread_with counts (order_record.code r)
             (count_value counts (order_record.code r)))) acc xs =
   reduce (\<lambda>counts r. Inr (spread_with counts (order_record.code r)
             (count_value counts (order_record.code r)))) acc ys"
proof (induction xs arbitrary: ys acc)
  case Nil
  then show ?case by simp
next
  case (Cons x xs)
  then obtain y ys' where ys: "ys = y # ys'" by (cases ys) auto
  with Cons.prems have "order_record.code x = order_record.code y"
    and "map order_record.code xs = map order_record.code ys'" by simp_all
  with Cons.IH [of ys'] ys show ?case by simp
qed

section \<open>The claims about the functions on values\<close>

text \<open>
  C1.  For every input, the declarative \<^verbatim>\<open>groupData\<close> returns a mapping with every code
  under the discount of its record.  It does not on a record whose discount is the name
  of a property of \<^verbatim>\<open>Object.prototype\<close>: for the discount \<^verbatim>\<open>"constructor"\<close> the lookup
  \<^verbatim>\<open>grouped[discount]\<close> finds the function \<^verbatim>\<open>Object\<close>, which has no \<^verbatim>\<open>concat\<close>, and
  the call throws a \<^verbatim>\<open>TypeError\<close> instead of returning.  (On inputs without such a
  discount the function returns \<open>group_by_discount\<close>, see \<open>groupData_groups_by_discount\<close>.)
\<close>

theorem groupData_declarative_inherited_discount:
  "groupData_declarative [\<lparr>discount_record.code = ''A'', discount = ''constructor''\<rparr>] =
     Inl TypeError"
  by (simp add: groupData_declarative_def group_value_def Get_def Object_prototype_def)

text \<open>
  C2.  For every input, the counts in the mapping returned by the declarative
  \<^verbatim>\<open>count\<close> add up to the length of the input.  They do not on a record whose code is
  the name of a property of \<^verbatim>\<open>Object.prototype\<close>: for the code \<^verbatim>\<open>"constructor"\<close> the
  lookup \<^verbatim>\<open>counts[code]\<close> finds the function \<^verbatim>\<open>Object\<close>, \<^verbatim>\<open>??\<close> keeps it, and
  \<^verbatim>\<open>+ 1\<close> makes the string of its source text followed by \<^verbatim>\<open>1\<close>; the mapping returned
  for one record holds that string and no count.  (On inputs without such a code the
  function returns \<open>count_by_code\<close>, whose counts add up to the length, see
  \<open>count_counts_by_code\<close> and \<open>sum_count_by_code\<close>.)
\<close>

theorem count_declarative_inherited_code:
  "count_declarative [\<lparr>order_record.code = ''constructor'', order = ''ASDF-123456''\<rparr>] =
     Inr [''constructor'' \<mapsto> Str ''function Object() { [native code] }1'']"
  by (simp add: count_declarative_def count_value_def Get_def Object_prototype_def
      spread_with_def Number_toString_def)

text \<open>
  C3.  For every array \<open>S\<close> of strings, the empty one too, the declarative
  \<^verbatim>\<open>transformData\<close> returns an array of the length of \<open>S\<close>, whose element at every index
  \<open>i\<close> of \<open>S\<close> is \<open>S[i]\<close> upper-cased.
\<close>

theorem transformData_declarative_pointwise:
  "length (transformData_declarative toUpperCase S) = length S \<and>
   (\<forall>i < length S. transformData_declarative toUpperCase S ! i = toUpperCase (S ! i))"
  by (simp add: transformData_declarative_def)

theorem transformData_declarative_pointwise_witness:
  "length (transformData_declarative ascii_toUpperCase [''a'', ''b'', ''c'', ''d'']) = 4 \<and>
   (2::nat) < length [''a'', ''b'', ''c'', ''d''] \<and>
   transformData_declarative ascii_toUpperCase [''a'', ''b'', ''c'', ''d''] ! 2 = ''C'' \<and>
   length (transformData_declarative ascii_toUpperCase []) = 0"
  using transformData_declarative_pointwise [of ascii_toUpperCase "[''a'', ''b'', ''c'', ''d'']"]
    transformData_declarative_pointwise [of ascii_toUpperCase "[]"]
  by (simp add: ascii_toUpperCase_def ascii_toUpperCase_char_def)

text \<open>
  C4.  For every array \<open>S\<close> of strings, the declarative \<^verbatim>\<open>transformAndFilterData\<close>
  returns the upper-cased forms of exactly the elements of \<open>S\<close> that start with
  \<^verbatim>\<open>"x"\<close>, in the order they have in \<open>S\<close>: the elements at the positions of \<open>S\<close> where
  the string starts with \<^verbatim>\<open>"x"\<close>, position by position.  The result is at most as long
  as \<open>S\<close>.
\<close>

theorem transformAndFilterData_declarative_selects:
  "transformAndFilterData_declarative toUpperCase S =
     map toUpperCase (nths S {i. i < length S \<and> (\<exists>t. S ! i = CHR ''x'' # t)}) \<and>
   length (transformAndFilterData_declarative toUpperCase S) \<le> length S"
proof
  show "transformAndFilterData_declarative toUpperCase S =
     map toUpperCase (nths S {i. i < length S \<and> (\<exists>t. S ! i = CHR ''x'' # t)})"
    by (simp add: transformAndFilterData_declarative_def filter_eq_nths startsWith_x)
  show "length (transformAndFilterData_declarative toUpperCase S) \<le> length S"
    by (simp add: transformAndFilterData_declarative_def)
qed

text \<open>
  C5.  The imperative and the declarative form of each task return equal results on
  every input.  They do for \<^verbatim>\<open>transformData\<close>, \<^verbatim>\<open>transformAndFilterData\<close> and
  \<^verbatim>\<open>groupData\<close> (\<open>transformData_imperative_eq_declarative\<close>,
  \<open>transformAndFilterData_imperative_eq_declarative\<close>,
  \<open>groupData_imperative_eq_declarative\<close>), and for \<^verbatim>\<open>count\<close> on inputs without the
  code \<^verbatim>\<open>"__proto__"\<close> (\<open>count_imperative_eq_declarative\<close>).  On a record with the
  code \<^verbatim>\<open>"__proto__"\<close> the two forms of \<^verbatim>\<open>count\<close> differ: the assignment
  \<^verbatim>\<open>result[code] = ...\<close> of the imperative form reaches the \<^verbatim>\<open>__proto__\<close> setter of
  \<^verbatim>\<open>Object.prototype\<close>, which ignores a string, and the object stays empty; the
  computed key of the object literal of the declarative form defines an own property,
  and the spread of the next step copies it.
\<close>

theorem count_imperative_declarative_differ:
  "count_imperative [\<lparr>order_record.code = ''__proto__'', order = ''ASDF-123456''\<rparr>] = Map.empty \<and>
   count_declarative [\<lparr>order_record.code = ''__proto__'', order = ''ASDF-123456''\<rparr>] =
     Inr [''__proto__'' \<mapsto> Str ''[object Object]1''] \<and>
   Inr (count_imperative [\<lparr>order_record.code = ''__proto__'', order = ''ASDF-123456''\<rparr>]) \<noteq>
     count_declarative [\<lparr>order_record.code = ''__proto__'', order = ''ASDF-123456''\<rparr>]"
proof -
  let ?orders = "[\<lparr>order_record.code = ''__proto__'', order = ''ASDF-123456''\<rparr>]"
  have i: "count_imperative ?orders = Map.empty"
    by (simp add: count_imperative_def count_value_def Get_def Object_prototype_def
        Set_primitive_def)
  have d: "count_declarative ?orders = Inr [''__proto__'' \<mapsto> Str ''[object Object]1'']"
    by (simp add: count_declarative_def count_value_def Get_def Object_prototype_def
        spread_with_def Number_toString_def)
  have "(Map.empty :: string \<rightharpoonup> jsval) \<noteq> [''__proto__'' \<mapsto> Str ''[object Object]1'']"
  proof
    assume "(Map.empty :: string \<rightharpoonup> jsval) = [''__proto__'' \<mapsto> Str ''[object Object]1'']"
    then have "(Map.empty :: string \<rightharpoonup> jsval) ''__proto__'' =
        [''__proto__'' \<mapsto> Str ''[object Object]1''] ''__proto__''"
      by (rule arg_cong)
    then show False by simp
  qed
  with i d show ?thesis by simp
qed

text \<open>
  C6.  On the five records of the comment above \<^verbatim>\<open>groupData\<close> the grouping returns
  \<^verbatim>\<open>{"1": ["A","C","E","F"], "2": ["B","E"]}\<close>.  It does not: \<^verbatim>\<open>E\<close> has the discount
  \<^verbatim>\<open>"2"\<close> only.  Both forms return \<^verbatim>\<open>{"1": ["A","C","F"], "2": ["B","E"]}\<close>.
\<close>

theorem scenario_4_grouping:
  "groupData_imperative scenario_4 = Inr scenario_4_grouped \<and>
   groupData_declarative scenario_4 = Inr scenario_4_grouped"
  using groupData_groups_by_discount [OF scenario_4_safe]
  by (simp add: scenario_4_group_by_discount)

theorem scenario_4_not_as_stated:
  "groupData_imperative scenario_4 \<noteq> Inr scenario_4_stated \<and>
   groupData_declarative scenario_4 \<noteq> Inr scenario_4_stated"
  using groupData_groups_by_discount [OF scenario_4_safe] scenario_4_stated_differs
  by (simp add: scenario_4_group_by_discount)

text \<open>
  C7.  Two inputs of \<^verbatim>\<open>count\<close> of the same length whose records have the same codes at
  every index, whatever their \<^verbatim>\<open>order\<close> fields, give the same mapping, in both forms.
\<close>

theorem count_ignores_order:
  assumes "length xs = length ys"
    and "\<forall>i < length xs. order_record.code (xs ! i) = order_record.code (ys ! i)"
  shows "count_imperative xs = count_imperative ys \<and> count_declarative xs = count_declarative ys"
proof -
  from assms have "map order_record.code xs = map order_record.code ys"
    by (simp add: list_eq_iff_nth_eq)
  then show ?thesis
    unfolding count_imperative_def count_declarative_def
    using count_imperative_loop_codes reduce_count_codes by blast
qed

theorem count_ignores_order_witness:
  "length [\<lparr>order_record.code = ''A'', order = ''ASDF-123456''\<rparr>,
           \<lparr>order_record.code = ''B'', order = ''ASDF-123457''\<rparr>] =
   length [\<lparr>order_record.code = ''A'', order = ''QWER-1''\<rparr>,
           \<lparr>order_record.code = ''B'', order = ''QWER-2''\<rparr>] \<and>
   count_imperative [\<lparr>order_record.code = ''A'', order = ''ASDF-123456''\<rparr>,
                     \<lparr>order_record.code = ''B'', order = ''ASDF-123457''\<rparr>] =
   count_imperative [\<lparr>order_record.code = ''A'', order = ''QWER-1''\<rparr>,
                     \<lparr>order_record.code = ''B'', order = ''QWER-2''\<rparr>] \<and>
   count_declarative [\<lparr>order_record.code = ''A'', order = ''ASDF-123456''\<rparr>,
                      \<lparr>order_record.code = ''B'', order = ''ASDF-123457''\<rparr>] =
   count_declarative [\<lparr>order_record.code = ''A'', order = ''QWER-1''\<rparr>,
                      \<lparr>order_record.code = ''B'', order = ''QWER-2''\<rparr>]"
  using count_ignores_order
    [of "[\<lparr>order_record.code = ''A'', order = ''ASDF-123456''\<rparr>,
          \<lparr>order_record.code = ''B'', order = ''ASDF-123457''\<rparr>]"
        "[\<lparr>order_record.code = ''A'', order = ''QWER-1''\<rparr>,
          \<lparr>order_record.code = ''B'', order = ''QWER-2''\<rparr>]"]
  by (simp add: nth_Cons split: nat.splits)

text \<open>
  C9.  \<^verbatim>\<open>[1, 2, 3, 4].reduce((previousValue, currentValue) => previousValue + currentValue)\<close>,
  which starts from the first element, is \<open>10\<close>.
\<close>

theorem example_reduce_value: "example_reduce = Inr (Num 10)"
  by (simp add: example_reduce_def reduce_no_initialValue_def)

text \<open>
  C10.  \<^verbatim>\<open>["1", "2", "3", "4"].reduce(..., "")\<close> with the same callback is the string
  \<^verbatim>\<open>"1234"\<close>, and not the number \<open>10\<close> of the comment.
\<close>

theorem example_reduce_initialValue_value:
  "example_reduce_initialValue = Inr (Str ''1234'') \<and> example_reduce_initialValue \<noteq> Inr (Num 10)"
  by (simp add: example_reduce_initialValue_def)

section \<open>Calls on the store\<close>

subsection \<open>Stores that only grow\<close>

lemma keeps_refl: "keeps n h h"
  by (simp add: keeps_def)

lemma keeps_trans: "keeps n h g \<Longrightarrow> keeps n g g' \<Longrightarrow> keeps n h g'"
  by (simp add: keeps_def)

lemma keeps_length: "keeps n h g \<Longrightarrow> n \<le> length h \<Longrightarrow> n \<le> length g"
  by (simp add: keeps_def)

lemma keeps_append: "n \<le> length h \<Longrightarrow> keeps n h (h @ cells)"
  by (simp add: keeps_def)

lemma keeps_update: "n \<le> r \<Longrightarrow> keeps n h (h[r := cell])"
  by (simp add: keeps_def)

lemma keeps_nth:
  assumes "keeps n h g" and "r < n"
  shows "g ! r = h ! r"
proof -
  from assms have "take n g = take n h" by (simp add: keeps_def)
  moreover from \<open>r < n\<close> have "take n g ! r = g ! r" and "take n h ! r = h ! r" by simp_all
  ultimately show ?thesis by simp
qed

lemma keeps_lookup:
  assumes "keeps n h g" and "r < n" and "n \<le> length h"
  shows "lookup g r = Some (h ! r)"
  using assms keeps_nth [OF assms(1,2)] by (simp add: lookup_def keeps_def)

lemma keeps_unchanged: "keeps (length h) h h' \<Longrightarrow> unchanged h h'"
  by (simp add: unchanged_def keeps_nth) (simp add: keeps_def)

lemma allocated_keeps: "allocated n h v \<Longrightarrow> keeps n h g \<Longrightarrow> allocated n g v"
  by (auto simp: allocated_def keeps_def split: val.splits)

lemma closed_append:
  "closed n h \<Longrightarrow> \<forall>a \<in> refs_of cell. n \<le> a \<Longrightarrow> closed n (h @ [cell])"
  by (auto simp: closed_def nth_append)

lemma closed_update:
  assumes "closed n h" and "\<forall>a \<in> refs_of cell. n \<le> a"
  shows "closed n (h[r := cell])"
  unfolding closed_def
proof (intro allI impI)
  fix q a
  assume q: "n \<le> q \<and> q < length (h[r := cell]) \<and> a \<in> refs_of (h[r := cell] ! q)"
  show "n \<le> a"
  proof (cases "q = r")
    case True
    with q assms(2) show ?thesis by auto
  next
    case False
    with q assms(1) show ?thesis by (auto simp: closed_def)
  qed
qed

lemma closed_refs:
  "closed n h \<Longrightarrow> n \<le> r \<Longrightarrow> r < length h \<Longrightarrow> a \<in> refs_of (h ! r) \<Longrightarrow> n \<le> a"
  by (auto simp: closed_def)

lemma closed_start: "refs_of cell = {} \<Longrightarrow> closed (length h) (h @ [cell])"
  by (auto simp: closed_def nth_append)

lemma refs_of_upd:
  "a \<in> refs_of (Object (props(key \<mapsto> v))) \<Longrightarrow> a \<in> refs_of (Object props) \<or> v = Ref a"
  by (auto simp: ran_def split: if_splits)

lemma refs_of_Set_primitive:
  "a \<in> refs_of (Object (Set_primitive props key v)) \<Longrightarrow> a \<in> refs_of (Object props) \<or> v = Ref a"
  by (auto simp: Set_primitive_def ran_def split: if_splits option.splits builtin.splits)

lemma refs_of_snoc:
  "a \<in> refs_of (Array (xs @ [v])) \<Longrightarrow> a \<in> refs_of (Array xs) \<or> v = Ref a"
  by auto

subsection \<open>The steps\<close>

lemma push_frame:
  assumes "closed n g" and "n \<le> result" and "\<forall>a. v = Ref a \<longrightarrow> n \<le> a"
    and "push result v g = (res, g')"
  shows "keeps n g g' \<and> closed n g'"
proof (cases "lookup g result")
  case None
  with assms show ?thesis by (auto simp: push_def keeps_refl)
next
  case (Some cell)
  then have r: "result < length g" and cell: "g ! result = cell"
    by (simp_all add: lookup_def split: if_splits)
  show ?thesis
  proof (cases cell)
    case (Object props)
    with assms Some show ?thesis by (auto simp: push_def keeps_refl)
  next
    case (Array xs)
    with assms Some have g': "g' = g[result := Array (xs @ [v])]" by (simp add: push_def)
    have "\<forall>a \<in> refs_of (Array (xs @ [v])). n \<le> a"
    proof
      fix a assume "a \<in> refs_of (Array (xs @ [v]))"
      then have "a \<in> refs_of (Array xs) \<or> v = Ref a" by (rule refs_of_snoc)
      with closed_refs [OF assms(1,2) r] cell Array assms(3) show "n \<le> a" by auto
    qed
    with assms(1,2) g' show ?thesis by (simp add: keeps_update closed_update)
  qed
qed

lemma assign_frame:
  assumes "closed n g" and "n \<le> result" and "\<forall>a. v = Ref a \<longrightarrow> n \<le> a"
    and "assign result key v g = (res, g')"
  shows "keeps n g g' \<and> closed n g'"
proof (cases "lookup g result")
  case None
  with assms show ?thesis by (auto simp: assign_def keeps_refl)
next
  case (Some cell)
  then have r: "result < length g" and cell: "g ! result = cell"
    by (simp_all add: lookup_def split: if_splits)
  show ?thesis
  proof (cases cell)
    case (Array xs)
    with assms Some show ?thesis by (auto simp: assign_def keeps_refl)
  next
    case (Object props)
    have old: "a \<in> refs_of (Object props) \<Longrightarrow> n \<le> a" for a
      using closed_refs [OF assms(1,2) r] cell Object by simp
    show ?thesis
    proof (cases v)
      case (Prim p)
      with assms Some Object have g': "g' = g[result := Object (Set_primitive props key v)]"
        by (simp add: assign_def)
      have "\<forall>a \<in> refs_of (Object (Set_primitive props key v)). n \<le> a"
        using refs_of_Set_primitive old assms(3) by blast
      with assms(1,2) g' show ?thesis by (simp add: keeps_update closed_update)
    next
      case (Ref b)
      with assms Some Object have g': "g' = g[result := Object (props(key \<mapsto> v))]"
        by (simp add: assign_def)
      have "\<forall>a \<in> refs_of (Object (props(key \<mapsto> v))). n \<le> a"
        using refs_of_upd old assms(3) by blast
      with assms(1,2) g' show ?thesis by (simp add: keeps_update closed_update)
    qed
  qed
qed

lemma new_frame:
  assumes "closed n g" and "n \<le> length g" and "\<forall>a \<in> refs_of cell. n \<le> a"
    and "new cell g = (r, g')"
  shows "keeps n g g' \<and> closed n g' \<and> allocated n g' (Ref r)"
  using assms by (auto simp: new_def keeps_append closed_append allocated_def)

lemma group_value_heap_frame:
  assumes "closed n g" and "n \<le> length g" and "n \<le> result"
    and "group_value_heap result key c g = (res, g')"
  shows "keeps n g g' \<and> closed n g' \<and> (\<forall>v. res = Inr v \<longrightarrow> allocated n g' v)"
proof (cases "lookup g result")
  case None
  with assms show ?thesis by (auto simp: group_value_heap_def keeps_refl)
next
  case (Some cell)
  then have r: "result < length g" and cell: "g ! result = cell"
    by (simp_all add: lookup_def split: if_splits)
  show ?thesis
  proof (cases cell)
    case (Array xs)
    with assms Some show ?thesis by (auto simp: group_value_heap_def keeps_refl)
  next
    case (Object props)
    show ?thesis
    proof (cases "Get props key")
      case (Inherited b)
      with assms Some Object show ?thesis by (auto simp: group_value_heap_def keeps_refl)
    next
      case Undefined
      with assms Some Object
      have "new (Array [Prim (Str c)]) g = (length g, g') \<and> res = Inr (Ref (length g))"
        by (auto simp: group_value_heap_def new_def)
      with new_frame [OF assms(1,2), of "Array [Prim (Str c)]" "length g" g']
      show ?thesis by auto
    next
      case (Own v)
      show ?thesis
      proof (cases v)
        case (Prim p)
        with assms Some Object Own show ?thesis by (auto simp: group_value_heap_def keeps_refl)
      next
        case (Ref a)
        with Own have "props key = Some (Ref a)"
          by (auto simp: Get_def split: option.splits)
        then have "a \<in> refs_of (Object props)" by (auto simp: ran_def)
        with closed_refs [OF assms(1,3) r] cell Object have a: "n \<le> a" by simp
        show ?thesis
        proof (cases "lookup g a")
          case None
          with assms Some Object Own Ref show ?thesis
            by (auto simp: group_value_heap_def keeps_refl)
        next
          case inner: (Some cell')
          then have a': "a < length g" and cell': "g ! a = cell'"
            by (simp_all add: lookup_def split: if_splits)
          show ?thesis
          proof (cases cell')
            case (Object props')
            with assms Some \<open>cell = Object props\<close> Own Ref inner show ?thesis
              by (auto simp: group_value_heap_def keeps_refl)
          next
            case (Array codes)
            with assms Some Object Own Ref inner
            have new: "new (Array (codes @ [Prim (Str c)])) g = (length g, g')"
              and res: "res = Inr (Ref (length g))"
              by (auto simp: group_value_heap_def new_def)
            have "\<forall>b \<in> refs_of (Array (codes @ [Prim (Str c)])). n \<le> b"
              using closed_refs [OF assms(1) a a'] cell' Array by auto
            from new_frame [OF assms(1,2) this new] res show ?thesis by auto
          qed
        qed
      qed
    qed
  qed
qed

lemma object_spread_frame:
  assumes "closed n g" and "n \<le> length g" and "allocated n g source"
    and "object_spread source g = (res, g')"
  shows "keeps n g g' \<and> closed n g' \<and> (\<forall>w. res = Inr w \<longrightarrow> allocated n g' w)"
proof -
  from assms(3) obtain r where src: "source = Ref r" and r: "n \<le> r" "r < length g"
    by (auto simp: allocated_def split: val.splits)
  then have look: "lookup g r = Some (g ! r)" by (simp add: lookup_def)
  show ?thesis
  proof (cases "g ! r")
    case (Array xs)
    with assms src look show ?thesis by (auto simp: object_spread_def keeps_refl)
  next
    case (Object props)
    with assms src look
    have new: "new (Object props) g = (length g, g')" and res: "res = Inr (Ref (length g))"
      by (auto simp: object_spread_def new_def)
    have "\<forall>a \<in> refs_of (Object props). n \<le> a"
      using closed_refs [OF assms(1) r] Object by auto
    from new_frame [OF assms(1,2) this new] res show ?thesis by auto
  qed
qed

lemma define_property_frame:
  assumes "closed n g" and "allocated n g target" and "\<forall>a. v = Ref a \<longrightarrow> n \<le> a"
    and "define_property target key v g = (res, g')"
  shows "keeps n g g' \<and> closed n g' \<and> (\<forall>w. res = Inr w \<longrightarrow> allocated n g' w)"
proof -
  from assms(2) obtain r where tgt: "target = Ref r" and r: "n \<le> r" "r < length g"
    by (auto simp: allocated_def split: val.splits)
  then have look: "lookup g r = Some (g ! r)" by (simp add: lookup_def)
  show ?thesis
  proof (cases "g ! r")
    case (Array xs)
    with assms tgt look show ?thesis by (auto simp: define_property_def keeps_refl)
  next
    case (Object props)
    with assms tgt look
    have g': "g' = g[r := Object (props(key \<mapsto> v))]" and res: "res = Inr target"
      by (auto simp: define_property_def spread_with_def)
    have "\<forall>a \<in> refs_of (Object (props(key \<mapsto> v))). n \<le> a"
      using refs_of_upd closed_refs [OF assms(1) r] Object assms(3) by (metis)
    with assms(1) r g' have "keeps n g g' \<and> closed n g'"
      by (simp add: keeps_update closed_update)
    moreover from assms(2) g' have "allocated n g' target"
      by (auto simp: allocated_def split: val.splits)
    ultimately show ?thesis using res by simp
  qed
qed

lemma toUpperCase_call_Prim: "toUpperCase_call up element = Inr v \<Longrightarrow> \<exists>p. v = Prim p"
  by (auto simp: toUpperCase_call_def split: val.splits jsval.splits)

lemma startsWith_call_Prim: "startsWith_call element s = Inr b \<Longrightarrow> \<exists>p. element = Prim p"
  by (auto simp: startsWith_call_def split: val.splits jsval.splits)

lemma count_value_heap_Prim: "count_value_heap result key g = Inr v \<Longrightarrow> \<exists>p. v = Prim p"
  by (auto simp: count_value_heap_def split: option.splits object.splits property.splits val.splits)

lemma map_completion_Prim:
  assumes "\<And>x y. callbackfn x = Inr y \<Longrightarrow> \<exists>p. y = Prim p"
  shows "map_completion callbackfn xs = Inr ys \<Longrightarrow> refs_of (Array ys) = {}"
proof (induction xs arbitrary: ys)
  case Nil
  then show ?case by simp
next
  case (Cons x xs)
  then obtain y ys' where y: "callbackfn x = Inr y" and ys': "map_completion callbackfn xs = Inr ys'"
    and ys: "ys = y # ys'" by (auto split: sum.splits)
  from assms [OF y] obtain p where "y = Prim p" ..
  with Cons.IH [OF ys'] ys show ?case by auto
qed

lemma filter_completion_Prim:
  assumes "\<And>x b. predicate x = Inr b \<Longrightarrow> \<exists>p. x = Prim p"
  shows "filter_completion predicate xs = Inr ys \<Longrightarrow> refs_of (Array ys) = {}"
proof (induction xs arbitrary: ys)
  case Nil
  then show ?case by simp
next
  case (Cons x xs)
  then obtain b ys' where b: "predicate x = Inr b" and ys': "filter_completion predicate xs = Inr ys'"
    and ys: "ys = (if b then x # ys' else ys')" by (auto split: sum.splits)
  from assms [OF b] obtain p where "x = Prim p" ..
  with Cons.IH [OF ys'] ys show ?case by auto
qed

subsection \<open>The loops\<close>

lemma for_of_not_array:
  assumes "\<forall>xs. lookup g array \<noteq> Some (Array xs)"
  shows "for_of body array i g = Some (Inl TypeError, g)"
  using assms by (subst for_of.simps) (auto split: option.splits object.splits)

lemma for_of_total:
  assumes array: "array < n" and h: "n \<le> length h" and cell: "h ! array = Array xs"
    and body: "\<And>i g res g'. \<lbrakk>i < length xs; keeps n h g; P i g; body (xs ! i) g = (res, g')\<rbrakk>
        \<Longrightarrow> keeps n g g' \<and> (case res of Inl e \<Rightarrow> Q (Inl e) g' | Inr u \<Rightarrow> P (Suc i) g')"
    and exit: "\<And>i g. \<lbrakk>length xs \<le> i; keeps n h g; P i g\<rbrakk> \<Longrightarrow> Q (Inr ()) g"
  shows "keeps n h g \<Longrightarrow> P i g \<Longrightarrow>
    \<exists>res h'. for_of body array i g = Some (res, h') \<and> keeps n g h' \<and> Q res h'"
proof (induction "length xs - i" arbitrary: i g)
  case 0
  from keeps_lookup [OF "0.prems"(1) array h] cell
  have look: "lookup g array = Some (Array xs)" by simp
  from 0 have i: "length xs \<le> i" by simp
  with look have "for_of body array i g = Some (Inr (), g)"
    by (subst for_of.simps) simp
  with exit [OF i "0.prems"] show ?case by (simp add: keeps_refl)
next
  case (Suc m)
  from keeps_lookup [OF Suc.prems(1) array h] cell
  have look: "lookup g array = Some (Array xs)" by simp
  from Suc.hyps have i: "i < length xs" by simp
  obtain res g' where step: "body (xs ! i) g = (res, g')" by (cases "body (xs ! i) g")
  from body [OF i Suc.prems step]
  have kg: "keeps n g g'"
    and post: "case res of Inl e \<Rightarrow> Q (Inl e) g' | Inr u \<Rightarrow> P (Suc i) g'" by simp_all
  show ?case
  proof (cases res)
    case (Inl e)
    with look i step have "for_of body array i g = Some (Inl e, g')"
      by (subst for_of.simps) simp
    with kg post Inl show ?thesis by simp
  next
    case (Inr u)
    with look i step have unfold: "for_of body array i g = for_of body array (Suc i) g'"
      by (subst for_of.simps) simp
    from Suc.hyps have m: "m = length xs - Suc i" by simp
    from Suc.prems(1) kg have kh: "keeps n h g'" by (rule keeps_trans)
    from post Inr have "P (Suc i) g'" by simp
    from Suc.hyps(1) [OF m kh this] obtain res' h'
      where "for_of body array (Suc i) g' = Some (res', h')" and "keeps n g' h'" and "Q res' h'"
      by blast
    with unfold kg show ?thesis by (auto intro: keeps_trans)
  qed
qed

lemma array_reduce_from_total:
  assumes array: "array < n" and h: "n \<le> length h" and cell: "h ! array = Array xs"
    and callbackfn: "\<And>k acc g res g'.
        \<lbrakk>k < length xs; keeps n h g; P k acc g; callbackfn acc (xs ! k) g = (res, g')\<rbrakk>
        \<Longrightarrow> keeps n g g' \<and> (case res of Inl e \<Rightarrow> Q (Inl e) g' | Inr w \<Rightarrow> P (Suc k) w g')"
    and exit: "\<And>k acc g. \<lbrakk>length xs \<le> k; keeps n h g; P k acc g\<rbrakk> \<Longrightarrow> Q (Inr acc) g"
  shows "keeps n h g \<Longrightarrow> P k acc g \<Longrightarrow>
    \<exists>res h'. array_reduce_from callbackfn array (length xs) k acc g = (res, h') \<and>
      keeps n g h' \<and> Q res h'"
proof (induction "length xs - k" arbitrary: k acc g)
  case 0
  then have k: "length xs \<le> k" by simp
  then have "array_reduce_from callbackfn array (length xs) k acc g = (Inr acc, g)"
    by (subst array_reduce_from.simps) simp
  with exit [OF k "0.prems"] show ?case by (simp add: keeps_refl)
next
  case (Suc m)
  from keeps_lookup [OF Suc.prems(1) array h] cell
  have look: "lookup g array = Some (Array xs)" by simp
  from Suc.hyps have k: "k < length xs" by simp
  obtain res g' where step: "callbackfn acc (xs ! k) g = (res, g')"
    by (cases "callbackfn acc (xs ! k) g")
  from callbackfn [OF k Suc.prems step]
  have kg: "keeps n g g'"
    and post: "case res of Inl e \<Rightarrow> Q (Inl e) g' | Inr w \<Rightarrow> P (Suc k) w g'" by simp_all
  show ?case
  proof (cases res)
    case (Inl e)
    with look k step
    have "array_reduce_from callbackfn array (length xs) k acc g = (Inl e, g')"
      by (subst array_reduce_from.simps) simp
    with kg post Inl show ?thesis by simp
  next
    case (Inr w)
    with look k step
    have unfold: "array_reduce_from callbackfn array (length xs) k acc g =
        array_reduce_from callbackfn array (length xs) (Suc k) w g'"
      by (subst array_reduce_from.simps) simp
    from Suc.hyps have m: "m = length xs - Suc k" by simp
    from Suc.prems(1) kg have kh: "keeps n h g'" by (rule keeps_trans)
    from post Inr have "P (Suc k) w g'" by simp
    from Suc.hyps(1) [OF m kh this] obtain res' h'
      where "array_reduce_from callbackfn array (length xs) (Suc k) w g' = (res', h')"
        and "keeps n g' h'" and "Q res' h'"
      by blast
    with unfold kg show ?thesis by (auto intro: keeps_trans)
  qed
qed

subsection \<open>The two shapes of a task function\<close>

lemma leaves_input_unchanged_Inl:
  "keeps (length h) h h' \<Longrightarrow> leaves_input_unchanged h (Inl e, h')"
  by (simp add: leaves_input_unchanged_def keeps_unchanged)

lemma leaves_input_unchanged_Inr:
  "keeps (length h) h h' \<Longrightarrow> closed (length h) h' \<Longrightarrow> allocated (length h) h' v \<Longrightarrow>
   leaves_input_unchanged h (Inr v, h')"
  by (simp add: leaves_input_unchanged_def keeps_unchanged freshly_constructed_def)

lemma imperative_shape:
  assumes array: "array < length h" and cell: "refs_of cell = {}"
    and body: "\<And>v g res g'.
        \<lbrakk>length h \<le> length g; closed (length h) g; body v g = (res, g')\<rbrakk>
        \<Longrightarrow> keeps (length h) g g' \<and> closed (length h) g'"
  shows "\<exists>outcome. return_after (length h) (for_of body array 0 (h @ [cell])) = Some outcome \<and>
           leaves_input_unchanged h outcome"
proof -
  let ?n = "length h" and ?h1 = "h @ [cell]"
  have k1: "keeps ?n h ?h1" by (simp add: keeps_append)
  have c1: "closed ?n ?h1" using cell by (rule closed_start)
  have "\<exists>res h'. for_of body array 0 ?h1 = Some (res, h') \<and> keeps ?n ?h1 h' \<and> closed ?n h'"
  proof (cases "?h1 ! array")
    case (Object props)
    with array have "\<forall>xs. lookup ?h1 array \<noteq> Some (Array xs)" by (simp add: lookup_def)
    then have "for_of body array 0 ?h1 = Some (Inl TypeError, ?h1)" by (rule for_of_not_array)
    with c1 show ?thesis by (simp add: keeps_refl)
  next
    case (Array xs)
    have "\<exists>res h'. for_of body array 0 ?h1 = Some (res, h') \<and> keeps ?n ?h1 h' \<and>
        (\<lambda>res g. closed ?n g) res h'"
    proof (rule for_of_total [where P = "\<lambda>i g. closed ?n g" and h = ?h1 and n = ?n and xs = xs])
      show "array < ?n" by (rule array)
      show "?n \<le> length ?h1" by simp
      show "?h1 ! array = Array xs" by (rule Array)
      show "keeps ?n ?h1 ?h1" by (rule keeps_refl)
      show "closed ?n ?h1" by (rule c1)
    next
      fix i g res g'
      assume kg: "keeps ?n ?h1 g" and cg: "closed ?n g" and step: "body (xs ! i) g = (res, g')"
      from kg have "?n \<le> length g" by (simp add: keeps_def)
      from body [OF this cg step]
      show "keeps ?n g g' \<and> (case res of Inl e \<Rightarrow> closed ?n g' | Inr u \<Rightarrow> closed ?n g')"
        by (simp split: sum.splits)
    qed simp
    then show ?thesis by simp
  qed
  then obtain res h' where run: "for_of body array 0 ?h1 = Some (res, h')"
    and k: "keeps ?n ?h1 h'" and c: "closed ?n h'" by blast
  from k1 k have kh: "keeps ?n h h'" by (rule keeps_trans)
  from k have "allocated ?n h' (Ref ?n)" by (simp add: allocated_def keeps_def)
  with run kh c show ?thesis
    by (cases res)
      (simp_all add: return_after_def leaves_input_unchanged_Inl leaves_input_unchanged_Inr)
qed

lemma reduce_shape:
  assumes array: "array < length h"
    and callbackfn: "\<And>acc v g res g'.
        \<lbrakk>length h \<le> length g; closed (length h) g; allocated (length h) g acc;
         callbackfn acc v g = (res, g')\<rbrakk>
        \<Longrightarrow> keeps (length h) g g' \<and> closed (length h) g' \<and>
            (\<forall>w. res = Inr w \<longrightarrow> allocated (length h) g' w)"
  shows "leaves_input_unchanged h
           (array_reduce callbackfn (Ref (length h)) array (h @ [Object Map.empty]))"
proof -
  let ?n = "length h" and ?h1 = "h @ [Object Map.empty]"
  have k1: "keeps ?n h ?h1" by (simp add: keeps_append)
  have c1: "closed ?n ?h1" by (rule closed_start) simp
  have a1: "allocated ?n ?h1 (Ref ?n)" by (simp add: allocated_def)
  from array have look: "lookup ?h1 array = Some (?h1 ! array)" by (simp add: lookup_def)
  show ?thesis
  proof (cases "?h1 ! array")
    case (Object props)
    with look have "array_reduce callbackfn (Ref ?n) array ?h1 = (Inl TypeError, ?h1)"
      by (simp add: array_reduce_def)
    with k1 show ?thesis by (simp add: leaves_input_unchanged_Inl)
  next
    case (Array xs)
    let ?Q = "\<lambda>res g. closed ?n g \<and> (\<forall>w. res = Inr w \<longrightarrow> allocated ?n g w)"
    have "\<exists>res h'. array_reduce_from callbackfn array (length xs) 0 (Ref ?n) ?h1 = (res, h') \<and>
        keeps ?n ?h1 h' \<and> ?Q res h'"
    proof (rule array_reduce_from_total
        [where P = "\<lambda>k acc g. closed ?n g \<and> allocated ?n g acc" and h = ?h1 and n = ?n])
      show "array < ?n" by (rule array)
      show "?n \<le> length ?h1" by simp
      show "?h1 ! array = Array xs" by (rule Array)
      show "keeps ?n ?h1 ?h1" by (rule keeps_refl)
      show "closed ?n ?h1 \<and> allocated ?n ?h1 (Ref ?n)" using c1 a1 by simp
    next
      fix k acc g res g'
      assume kg: "keeps ?n ?h1 g" and inv: "closed ?n g \<and> allocated ?n g acc"
        and step: "callbackfn acc (xs ! k) g = (res, g')"
      from kg have "?n \<le> length g" by (simp add: keeps_def)
      from callbackfn [OF this _ _ step] inv
      show "keeps ?n g g' \<and> (case res of Inl e \<Rightarrow> ?Q (Inl e) g'
          | Inr w \<Rightarrow> closed ?n g' \<and> allocated ?n g' w)"
        by (auto split: sum.splits)
    qed auto
    then obtain res h' where
      run: "array_reduce_from callbackfn array (length xs) 0 (Ref ?n) ?h1 = (res, h')"
      and k: "keeps ?n ?h1 h'" and c: "closed ?n h'"
      and a: "\<forall>w. res = Inr w \<longrightarrow> allocated ?n h' w" by blast
    from k1 k have kh: "keeps ?n h h'" by (rule keeps_trans)
    from look Array run
    have "array_reduce callbackfn (Ref ?n) array ?h1 = (res, h')" by (simp add: array_reduce_def)
    with kh c a show ?thesis
      by (cases res) (simp_all add: leaves_input_unchanged_Inl leaves_input_unchanged_Inr)
  qed
qed

lemma closed_self: "closed (length h) h"
  by (simp add: closed_def)

lemma array_map_frame:
  assumes callbackfn: "\<And>x y. callbackfn x = Inr y \<Longrightarrow> \<exists>p. y = Prim p"
    and "closed n h" and "n \<le> length h" and "array_map callbackfn array h = (res, h')"
  shows "keeps n h h' \<and> closed n h' \<and> (\<forall>w. res = Inr w \<longrightarrow> allocated n h' w)"
proof (cases "\<exists>xs. lookup h array = Some (Array xs)")
  case False
  with assms(4) have "res = Inl TypeError \<and> h' = h"
    by (auto simp: array_map_def split: option.splits object.splits)
  with assms(2) show ?thesis by (simp add: keeps_refl)
next
  case True
  then obtain xs where look: "lookup h array = Some (Array xs)" ..
  show ?thesis
  proof (cases "map_completion callbackfn xs")
    case (Inl e)
    with look assms(4) have "res = Inl e \<and> h' = h @ [Array []]"
      by (simp add: array_map_def new_def)
    with assms(2,3) show ?thesis by (simp add: keeps_append closed_append)
  next
    case (Inr ys)
    with look assms(4) have "res = Inr (Ref (length h)) \<and> h' = h @ [Array ys]"
      by (simp add: array_map_def new_def)
    moreover from callbackfn Inr have "refs_of (Array ys) = {}" by (rule map_completion_Prim)
    ultimately show ?thesis using assms(2,3)
      by (simp add: keeps_append closed_append allocated_def)
  qed
qed

lemma array_filter_frame:
  assumes predicate: "\<And>x b. predicate x = Inr b \<Longrightarrow> \<exists>p. x = Prim p"
    and "closed n h" and "n \<le> length h" and "array_filter predicate array h = (res, h')"
  shows "keeps n h h' \<and> closed n h' \<and> (\<forall>w. res = Inr w \<longrightarrow> allocated n h' w)"
proof (cases "\<exists>xs. lookup h array = Some (Array xs)")
  case False
  with assms(4) have "res = Inl TypeError \<and> h' = h"
    by (auto simp: array_filter_def split: option.splits object.splits)
  with assms(2) show ?thesis by (simp add: keeps_refl)
next
  case True
  then obtain xs where look: "lookup h array = Some (Array xs)" ..
  show ?thesis
  proof (cases "filter_completion predicate xs")
    case (Inl e)
    with look assms(4) have "res = Inl e \<and> h' = h @ [Array []]"
      by (simp add: array_filter_def new_def)
    with assms(2,3) show ?thesis by (simp add: keeps_append closed_append)
  next
    case (Inr ys)
    with look assms(4) have "res = Inr (Ref (length h)) \<and> h' = h @ [Array ys]"
      by (simp add: array_filter_def new_def)
    moreover from predicate Inr have "refs_of (Array ys) = {}" by (rule filter_completion_Prim)
    ultimately show ?thesis using assms(2,3)
      by (simp add: keeps_append closed_append allocated_def)
  qed
qed

lemma leaves_input_unchanged_frame:
  assumes "keeps (length h) h h' \<and> closed (length h) h' \<and>
           (\<forall>w. res = Inr w \<longrightarrow> allocated (length h) h' w)"
  shows "leaves_input_unchanged h (res, h')"
  using assms
  by (cases res) (simp_all add: leaves_input_unchanged_Inl leaves_input_unchanged_Inr)

lemma transformData_imperative_heap_frame:
  assumes "array < length h"
  shows "\<exists>outcome. transformData_imperative_heap up array h = Some outcome \<and>
           leaves_input_unchanged h outcome"
  unfolding transformData_imperative_heap_def new_def Let_def prod.case
proof (rule imperative_shape [OF assms])
  show "refs_of (Array []) = {}" by simp
next
  fix v g res g'
  assume g: "length h \<le> length g" and c: "closed (length h) g"
    and step: "(case toUpperCase_call up v of Inl e \<Rightarrow> (Inl e, g)
                | Inr w \<Rightarrow> push (length h) w g) = (res, g')"
  show "keeps (length h) g g' \<and> closed (length h) g'"
  proof (cases "toUpperCase_call up v")
    case (Inl e)
    with step c show ?thesis by (auto simp: keeps_refl)
  next
    case (Inr w)
    with toUpperCase_call_Prim obtain p where "w = Prim p" by blast
    with Inr step push_frame [OF c, of "length h" w res g'] show ?thesis by simp
  qed
qed

lemma transformData_declarative_heap_frame:
  "leaves_input_unchanged h (transformData_declarative_heap up array h)"
proof -
  obtain res h' where run: "array_map (\<lambda>element. toUpperCase_call up element) array h = (res, h')"
    by (cases "array_map (\<lambda>element. toUpperCase_call up element) array h")
  from array_map_frame [OF _ closed_self _ run] toUpperCase_call_Prim
  have "keeps (length h) h h' \<and> closed (length h) h' \<and>
      (\<forall>w. res = Inr w \<longrightarrow> allocated (length h) h' w)" by blast
  with run show ?thesis
    by (simp add: transformData_declarative_heap_def leaves_input_unchanged_frame)
qed

lemma transformAndFilterData_imperative_heap_frame:
  assumes "array < length h"
  shows "\<exists>outcome. transformAndFilterData_imperative_heap up array h = Some outcome \<and>
           leaves_input_unchanged h outcome"
  unfolding transformAndFilterData_imperative_heap_def new_def Let_def prod.case
proof (rule imperative_shape [OF assms])
  show "refs_of (Array []) = {}" by simp
next
  fix v g res g'
  assume g: "length h \<le> length g" and c: "closed (length h) g"
    and step: "(case startsWith_call v ''x'' of Inl e \<Rightarrow> (Inl e, g)
                | Inr starts \<Rightarrow>
                    if \<not> starts then (Inr (), g)
                    else (case toUpperCase_call up v of Inl e \<Rightarrow> (Inl e, g)
                          | Inr w \<Rightarrow> push (length h) w g)) = (res, g')"
  show "keeps (length h) g g' \<and> closed (length h) g'"
  proof (cases "startsWith_call v ''x''")
    case (Inl e)
    with step c show ?thesis by (auto simp: keeps_refl)
  next
    case starts: (Inr starts)
    show ?thesis
    proof (cases "toUpperCase_call up v")
      case (Inl e)
      with starts step c show ?thesis by (auto simp: keeps_refl split: if_splits)
    next
      case (Inr w)
      with toUpperCase_call_Prim obtain p where "w = Prim p" by blast
      with Inr starts step c push_frame [OF c, of "length h" w res g'] show ?thesis
        by (auto simp: keeps_refl split: if_splits)
    qed
  qed
qed

lemma transformAndFilterData_declarative_heap_frame:
  "leaves_input_unchanged h (transformAndFilterData_declarative_heap up array h)"
proof -
  let ?n = "length h"
  obtain r1 h1 where f: "array_filter (\<lambda>element. startsWith_call element ''x'') array h = (r1, h1)"
    by (cases "array_filter (\<lambda>element. startsWith_call element ''x'') array h")
  from array_filter_frame [OF _ closed_self _ f] startsWith_call_Prim
  have k1: "keeps ?n h h1" and c1: "closed ?n h1"
    and a1: "\<forall>w. r1 = Inr w \<longrightarrow> allocated ?n h1 w" by blast+
  show ?thesis
  proof (cases r1)
    case (Inl e)
    with f k1 show ?thesis
      by (simp add: transformAndFilterData_declarative_heap_def leaves_input_unchanged_Inl)
  next
    case (Inr w)
    show ?thesis
    proof (cases w)
      case (Prim p)
      with Inr f k1 show ?thesis
        by (simp add: transformAndFilterData_declarative_heap_def leaves_input_unchanged_Inl)
    next
      case (Ref filtered)
      obtain r2 h2 where
        m: "array_map (\<lambda>element. toUpperCase_call up element) filtered h1 = (r2, h2)"
        by (cases "array_map (\<lambda>element. toUpperCase_call up element) filtered h1")
      from k1 have "?n \<le> length h1" by (simp add: keeps_def)
      from array_map_frame [OF _ c1 this m] toUpperCase_call_Prim
      have "keeps ?n h1 h2" and "closed ?n h2" and "\<forall>w. r2 = Inr w \<longrightarrow> allocated ?n h2 w"
        by blast+
      with k1 have "keeps ?n h h2 \<and> closed ?n h2 \<and> (\<forall>w. r2 = Inr w \<longrightarrow> allocated ?n h2 w)"
        by (auto intro: keeps_trans)
      then have "leaves_input_unchanged h (r2, h2)" by (rule leaves_input_unchanged_frame)
      with Inr Ref f m show ?thesis
        by (simp add: transformAndFilterData_declarative_heap_def)
    qed
  qed
qed

lemma allocated_Ref: "allocated n g v \<Longrightarrow> \<forall>a. v = Ref a \<longrightarrow> n \<le> a"
  by (auto simp: allocated_def)

lemma group_step_frame:
  assumes c: "closed n g" and g: "n \<le> length g" and r: "n \<le> result"
    and step: "(case group_value_heap result key c g of
                  (Inl e, g1) \<Rightarrow> (Inl e, g1)
                | (Inr v, g1) \<Rightarrow> assign result key v g1) = (res, g')"
  shows "keeps n g g' \<and> closed n g'"
proof -
  obtain r1 g1 where gv: "group_value_heap result key c g = (r1, g1)"
    by (cases "group_value_heap result key c g")
  from group_value_heap_frame [OF c g r gv]
  have k1: "keeps n g g1" and c1: "closed n g1" and a1: "\<forall>v. r1 = Inr v \<longrightarrow> allocated n g1 v"
    by simp_all
  show ?thesis
  proof (cases r1)
    case (Inl e)
    with gv step k1 c1 show ?thesis by simp
  next
    case (Inr v)
    with gv step have "assign result key v g1 = (res, g')" by simp
    from assign_frame [OF c1 r _ this] a1 Inr allocated_Ref
    have "keeps n g1 g' \<and> closed n g'" by blast
    with k1 show ?thesis by (auto intro: keeps_trans)
  qed
qed

lemma groupData_imperative_heap_frame:
  assumes "array < length h"
  shows "\<exists>outcome. groupData_imperative_heap array h = Some outcome \<and>
           leaves_input_unchanged h outcome"
  unfolding groupData_imperative_heap_def new_def Let_def prod.case
proof (rule imperative_shape [OF assms])
  show "refs_of (Object Map.empty) = {}" by simp
next
  fix v g res g'
  assume g: "length h \<le> length g" and c: "closed (length h) g"
    and step: "(case string_field g v ''code'' of Inl e \<Rightarrow> (Inl e, g)
        | Inr c \<Rightarrow>
            (case string_field g v ''discount'' of Inl e \<Rightarrow> (Inl e, g)
             | Inr d \<Rightarrow>
                 (case group_value_heap (length h) d c g of
                    (Inl e, g') \<Rightarrow> (Inl e, g')
                  | (Inr w, g') \<Rightarrow> assign (length h) d w g'))) = (res, g')"
  show "keeps (length h) g g' \<and> closed (length h) g'"
  proof (cases "string_field g v ''code''")
    case (Inl e)
    with step c show ?thesis by (auto simp: keeps_refl)
  next
    case code: (Inr c)
    show ?thesis
    proof (cases "string_field g v ''discount''")
      case (Inl e)
      with code step c show ?thesis by (auto simp: keeps_refl)
    next
      case (Inr d)
      with code step group_step_frame [OF c g, of "length h" d c res g'] show ?thesis by simp
    qed
  qed
qed

lemma count_imperative_heap_frame:
  assumes "array < length h"
  shows "\<exists>outcome. count_imperative_heap array h = Some outcome \<and>
           leaves_input_unchanged h outcome"
  unfolding count_imperative_heap_def new_def Let_def prod.case
proof (rule imperative_shape [OF assms])
  show "refs_of (Object Map.empty) = {}" by simp
next
  fix v g res g'
  assume g: "length h \<le> length g" and c: "closed (length h) g"
    and step: "(case string_field g v ''code'' of Inl e \<Rightarrow> (Inl e, g)
        | Inr c \<Rightarrow>
            (case count_value_heap (length h) c g of Inl e \<Rightarrow> (Inl e, g)
             | Inr w \<Rightarrow> assign (length h) c w g)) = (res, g')"
  show "keeps (length h) g g' \<and> closed (length h) g'"
  proof (cases "string_field g v ''code''")
    case (Inl e)
    with step c show ?thesis by (auto simp: keeps_refl)
  next
    case code: (Inr c)
    show ?thesis
    proof (cases "count_value_heap (length h) c g")
      case (Inl e)
      with code step c show ?thesis by (auto simp: keeps_refl)
    next
      case (Inr w)
      with count_value_heap_Prim obtain p where "w = Prim p" by blast
      with Inr code step assign_frame [OF c, of "length h" w c res g'] show ?thesis by simp
    qed
  qed
qed

lemma group_literal_frame:
  assumes c: "closed n g" and g: "n \<le> length g" and acc: "allocated n g acc"
    and step: "(case object_spread acc g of
                  (Inl e, g1) \<Rightarrow> (Inl e, g1)
                | (Inr literal, g1) \<Rightarrow>
                    (case acc of
                       Prim _ \<Rightarrow> (Inl TypeError, g1)
                     | Ref r \<Rightarrow>
                         (case group_value_heap r key c g1 of
                            (Inl e, g2) \<Rightarrow> (Inl e, g2)
                          | (Inr v, g2) \<Rightarrow> define_property literal key v g2))) = (res, g')"
  shows "keeps n g g' \<and> closed n g' \<and> (\<forall>w. res = Inr w \<longrightarrow> allocated n g' w)"
proof -
  from acc obtain r where r: "acc = Ref r" "n \<le> r" by (auto simp: allocated_def split: val.splits)
  obtain r1 g1 where sp: "object_spread acc g = (r1, g1)" by (cases "object_spread acc g")
  from object_spread_frame [OF c g acc sp]
  have k1: "keeps n g g1" and c1: "closed n g1" and a1: "\<forall>w. r1 = Inr w \<longrightarrow> allocated n g1 w"
    by simp_all
  from k1 g have g1: "n \<le> length g1" by (rule keeps_length)
  show ?thesis
  proof (cases r1)
    case (Inl e)
    with sp step k1 c1 show ?thesis by auto
  next
    case (Inr literal)
    with a1 have lit: "allocated n g1 literal" by simp
    obtain r2 g2 where gv: "group_value_heap r key c g1 = (r2, g2)"
      by (cases "group_value_heap r key c g1")
    from group_value_heap_frame [OF c1 g1 r(2) gv]
    have k2: "keeps n g1 g2" and c2: "closed n g2"
      and a2: "\<forall>v. r2 = Inr v \<longrightarrow> allocated n g2 v" by simp_all
    from k1 k2 have k12: "keeps n g g2" by (rule keeps_trans)
    show ?thesis
    proof (cases r2)
      case (Inl e)
      with Inr sp r gv step k12 c2 show ?thesis by auto
    next
      case v: (Inr v)
      with Inr sp r gv step have dp: "define_property literal key v g2 = (res, g')" by simp
      from lit k2 have "allocated n g2 literal" by (rule allocated_keeps)
      from define_property_frame [OF c2 this _ dp] a2 v allocated_Ref
      have "keeps n g2 g' \<and> closed n g' \<and> (\<forall>w. res = Inr w \<longrightarrow> allocated n g' w)" by blast
      with k12 show ?thesis by (auto intro: keeps_trans)
    qed
  qed
qed

lemma count_literal_frame:
  assumes c: "closed n g" and g: "n \<le> length g" and acc: "allocated n g acc"
    and step: "(case object_spread acc g of
                  (Inl e, g1) \<Rightarrow> (Inl e, g1)
                | (Inr literal, g1) \<Rightarrow>
                    (case acc of
                       Prim _ \<Rightarrow> (Inl TypeError, g1)
                     | Ref r \<Rightarrow>
                         (case count_value_heap r key g1 of
                            Inl e \<Rightarrow> (Inl e, g1)
                          | Inr v \<Rightarrow> define_property literal key v g1))) = (res, g')"
  shows "keeps n g g' \<and> closed n g' \<and> (\<forall>w. res = Inr w \<longrightarrow> allocated n g' w)"
proof -
  from acc obtain r where r: "acc = Ref r" "n \<le> r" by (auto simp: allocated_def split: val.splits)
  obtain r1 g1 where sp: "object_spread acc g = (r1, g1)" by (cases "object_spread acc g")
  from object_spread_frame [OF c g acc sp]
  have k1: "keeps n g g1" and c1: "closed n g1" and a1: "\<forall>w. r1 = Inr w \<longrightarrow> allocated n g1 w"
    by simp_all
  show ?thesis
  proof (cases r1)
    case (Inl e)
    with sp step k1 c1 show ?thesis by auto
  next
    case (Inr literal)
    with a1 have lit: "allocated n g1 literal" by simp
    show ?thesis
    proof (cases "count_value_heap r key g1")
      case (Inl e)
      with Inr sp r step k1 c1 show ?thesis by auto
    next
      case v: (Inr v)
      with Inr sp r step have dp: "define_property literal key v g1 = (res, g')" by simp
      from count_value_heap_Prim [OF v] obtain p where "v = Prim p" ..
      then have "\<forall>a. v = Ref a \<longrightarrow> n \<le> a" by simp
      from define_property_frame [OF c1 lit this dp]
      have "keeps n g1 g' \<and> closed n g' \<and> (\<forall>w. res = Inr w \<longrightarrow> allocated n g' w)" .
      with k1 show ?thesis by (auto intro: keeps_trans)
    qed
  qed
qed

lemma groupData_declarative_heap_frame:
  assumes "array < length h"
  shows "leaves_input_unchanged h (groupData_declarative_heap array h)"
  unfolding groupData_declarative_heap_def new_def Let_def prod.case
proof (rule reduce_shape [OF assms])
  fix acc v g res g'
  assume g: "length h \<le> length g" and c: "closed (length h) g"
    and acc: "allocated (length h) g acc"
    and step: "(case string_field g v ''discount'' of Inl e \<Rightarrow> (Inl e, g)
        | Inr d \<Rightarrow>
            (case string_field g v ''code'' of Inl e \<Rightarrow> (Inl e, g)
             | Inr c \<Rightarrow>
                 (case object_spread acc g of
                    (Inl e, g1) \<Rightarrow> (Inl e, g1)
                  | (Inr literal, g1) \<Rightarrow>
                      (case acc of
                         Prim _ \<Rightarrow> (Inl TypeError, g1)
                       | Ref r \<Rightarrow>
                           (case group_value_heap r d c g1 of
                              (Inl e, g2) \<Rightarrow> (Inl e, g2)
                            | (Inr w, g2) \<Rightarrow> define_property literal d w g2))))) = (res, g')"
  show "keeps (length h) g g' \<and> closed (length h) g' \<and>
      (\<forall>w. res = Inr w \<longrightarrow> allocated (length h) g' w)"
  proof (cases "string_field g v ''discount''")
    case (Inl e)
    with step c show ?thesis by (auto simp: keeps_refl)
  next
    case d: (Inr d)
    show ?thesis
    proof (cases "string_field g v ''code''")
      case (Inl e)
      with d step c show ?thesis by (auto simp: keeps_refl)
    next
      case (Inr c')
      with d step group_literal_frame [OF c g acc, of d c' res g'] show ?thesis by simp
    qed
  qed
qed

lemma count_declarative_heap_frame:
  assumes "array < length h"
  shows "leaves_input_unchanged h (count_declarative_heap array h)"
  unfolding count_declarative_heap_def new_def Let_def prod.case
proof (rule reduce_shape [OF assms])
  fix acc v g res g'
  assume g: "length h \<le> length g" and c: "closed (length h) g"
    and acc: "allocated (length h) g acc"
    and step: "(case string_field g v ''code'' of Inl e \<Rightarrow> (Inl e, g)
        | Inr c \<Rightarrow>
            (case object_spread acc g of
               (Inl e, g1) \<Rightarrow> (Inl e, g1)
             | (Inr literal, g1) \<Rightarrow>
                 (case acc of
                    Prim _ \<Rightarrow> (Inl TypeError, g1)
                  | Ref r \<Rightarrow>
                      (case count_value_heap r c g1 of
                         Inl e \<Rightarrow> (Inl e, g1)
                       | Inr w \<Rightarrow> define_property literal c w g1)))) = (res, g')"
  show "keeps (length h) g g' \<and> closed (length h) g' \<and>
      (\<forall>w. res = Inr w \<longrightarrow> allocated (length h) g' w)"
  proof (cases "string_field g v ''code''")
    case (Inl e)
    with step c show ?thesis by (auto simp: keeps_refl)
  next
    case (Inr c')
    with step count_literal_frame [OF c g acc, of c' res g'] show ?thesis by simp
  qed
qed


section \<open>The functions on the store and the functions on values\<close>

text \<open>
  On a store that holds an array of strings, or an array of records, the functions on
  the store return what the functions on values return for those strings or records:
  the same array of strings, the same mapping, or the same exception.
\<close>

lemma for_of_simulates:
  assumes array: "array < n" and h: "n \<le> length h" and cell: "h ! array = Array xs"
    and len: "length ys = length xs"
    and sim: "\<And>i g acc. \<lbrakk>i < length xs; keeps n h g; R acc g\<rbrakk> \<Longrightarrow>
        (case step acc (ys ! i) of
           Inl e \<Rightarrow> \<exists>g'. body (xs ! i) g = (Inl e, g') \<and> keeps n g g'
         | Inr acc' \<Rightarrow> \<exists>g'. body (xs ! i) g = (Inr (), g') \<and> keeps n g g' \<and> R acc' g')"
  shows "keeps n h g \<Longrightarrow> R acc g \<Longrightarrow>
    (case reduce step acc (drop i ys) of
       Inl e \<Rightarrow> \<exists>h'. for_of body array i g = Some (Inl e, h') \<and> keeps n g h'
     | Inr acc' \<Rightarrow> \<exists>h'. for_of body array i g = Some (Inr (), h') \<and> keeps n g h' \<and> R acc' h')"
proof (induction "length xs - i" arbitrary: i g acc)
  case 0
  from keeps_lookup [OF "0.prems"(1) array h] cell
  have look: "lookup g array = Some (Array xs)" by simp
  from 0 have i: "length xs \<le> i" by simp
  with look have "for_of body array i g = Some (Inr (), g)"
    by (subst for_of.simps) simp
  with i len "0.prems" show ?case by (simp add: keeps_refl)
next
  case (Suc m)
  from keeps_lookup [OF Suc.prems(1) array h] cell
  have look: "lookup g array = Some (Array xs)" by simp
  from Suc.hyps have i: "i < length xs" by simp
  with len have drop: "drop i ys = ys ! i # drop (Suc i) ys"
    by (simp add: Cons_nth_drop_Suc)
  show ?case
  proof (cases "step acc (ys ! i)")
    case (Inl e)
    with sim [OF i Suc.prems] obtain g' where "body (xs ! i) g = (Inl e, g')" and "keeps n g g'"
      by auto
    with look i have "for_of body array i g = Some (Inl e, g')"
      by (subst for_of.simps) simp
    with Inl drop \<open>keeps n g g'\<close> show ?thesis by simp
  next
    case (Inr acc')
    with sim [OF i Suc.prems] obtain g' where step: "body (xs ! i) g = (Inr (), g')"
      and kg: "keeps n g g'" and R: "R acc' g'" by auto
    with look i have unfold: "for_of body array i g = for_of body array (Suc i) g'"
      by (subst for_of.simps) simp
    from Suc.hyps have m: "m = length xs - Suc i" by simp
    from Suc.prems(1) kg have kh: "keeps n h g'" by (rule keeps_trans)
    from Suc.hyps(1) [OF m kh R] Inr drop unfold kg show ?thesis
      by (auto split: sum.splits intro: keeps_trans)
  qed
qed

lemma array_reduce_from_simulates:
  assumes array: "array < n" and h: "n \<le> length h" and cell: "h ! array = Array xs"
    and len: "length ys = length xs"
    and sim: "\<And>k g acc v. \<lbrakk>k < length xs; keeps n h g; R acc v g\<rbrakk> \<Longrightarrow>
        (case step acc (ys ! k) of
           Inl e \<Rightarrow> \<exists>g'. callbackfn v (xs ! k) g = (Inl e, g') \<and> keeps n g g'
         | Inr acc' \<Rightarrow> \<exists>v' g'. callbackfn v (xs ! k) g = (Inr v', g') \<and> keeps n g g' \<and>
             R acc' v' g')"
  shows "keeps n h g \<Longrightarrow> R acc v g \<Longrightarrow>
    (case reduce step acc (drop k ys) of
       Inl e \<Rightarrow> \<exists>h'. array_reduce_from callbackfn array (length xs) k v g = (Inl e, h') \<and>
         keeps n g h'
     | Inr acc' \<Rightarrow> \<exists>v' h'. array_reduce_from callbackfn array (length xs) k v g = (Inr v', h') \<and>
         keeps n g h' \<and> R acc' v' h')"
proof (induction "length xs - k" arbitrary: k g acc v)
  case 0
  then have k: "length xs \<le> k" by simp
  then have "array_reduce_from callbackfn array (length xs) k v g = (Inr v, g)"
    by (subst array_reduce_from.simps) simp
  with k len "0.prems" show ?case by (simp add: keeps_refl)
next
  case (Suc m)
  from keeps_lookup [OF Suc.prems(1) array h] cell
  have look: "lookup g array = Some (Array xs)" by simp
  from Suc.hyps have k: "k < length xs" by simp
  with len have drop: "drop k ys = ys ! k # drop (Suc k) ys"
    by (simp add: Cons_nth_drop_Suc)
  show ?case
  proof (cases "step acc (ys ! k)")
    case (Inl e)
    with sim [OF k Suc.prems] obtain g' where "callbackfn v (xs ! k) g = (Inl e, g')"
      and "keeps n g g'" by auto
    with look k have "array_reduce_from callbackfn array (length xs) k v g = (Inl e, g')"
      by (subst array_reduce_from.simps) simp
    with Inl drop \<open>keeps n g g'\<close> show ?thesis by simp
  next
    case (Inr acc')
    with sim [OF k Suc.prems] obtain v' g' where step: "callbackfn v (xs ! k) g = (Inr v', g')"
      and kg: "keeps n g g'" and R: "R acc' v' g'" by auto
    with look k have unfold: "array_reduce_from callbackfn array (length xs) k v g =
        array_reduce_from callbackfn array (length xs) (Suc k) v' g'"
      by (subst array_reduce_from.simps) simp
    from Suc.hyps have m: "m = length xs - Suc k" by simp
    from Suc.prems(1) kg have kh: "keeps n h g'" by (rule keeps_trans)
    from Suc.hyps(1) [OF m kh R] Inr drop unfold kg show ?thesis
      by (auto split: sum.splits intro: keeps_trans)
  qed
qed

subsection \<open>The functions on arrays of strings\<close>

lemma string_array_nth: "i < length S \<Longrightarrow> (case string_array S of Array xs \<Rightarrow> xs ! i) = Prim (Str (S ! i))"
  by (simp add: string_array_def)

lemma reduce_transformData:
  "reduce (\<lambda>acc s. Inr (acc @ [up s])) acc S = Inr (transformData_imperative_loop up S acc)"
  by (induction S arbitrary: acc) simp_all

lemma reduce_transformAndFilterData:
  "reduce (\<lambda>acc s. Inr (if \<not> startsWith s ''x'' then acc else acc @ [up s])) acc S =
     Inr (transformAndFilterData_imperative_loop up S acc)"
  by (induction S arbitrary: acc) simp_all

lemma push_string_array:
  "push (length h) (Prim (Str s)) (h @ [string_array S]) = (Inr (), h @ [string_array (S @ [s])])"
  by (simp add: push_def lookup_def string_array_def)

lemma transformData_imperative_heap_refines:
  assumes "string_array_at h array S"
  shows "transformData_imperative_heap up array h =
     Some (Inr (Ref (length h)), h @ [string_array (transformData_imperative up S)])"
proof -
  from assms have array: "array < length h" and cell: "h ! array = string_array S"
    by (simp_all add: string_array_at_def)
  let ?n = "length h" and ?h1 = "h @ [Array []]"
  let ?body = "\<lambda>element g. case toUpperCase_call up element of
                   Inl e \<Rightarrow> (Inl e, g) | Inr v \<Rightarrow> push ?n v g"
  let ?R = "\<lambda>acc g. g = h @ [string_array acc]"
  have "case reduce (\<lambda>acc s. Inr (acc @ [up s])) [] (drop 0 S) of
       Inl e \<Rightarrow> \<exists>h'. for_of ?body array 0 ?h1 = Some (Inl e, h') \<and> keeps ?n ?h1 h'
     | Inr acc' \<Rightarrow> \<exists>h'. for_of ?body array 0 ?h1 = Some (Inr (), h') \<and> keeps ?n ?h1 h' \<and>
         ?R acc' h'"
  proof (rule for_of_simulates [where h = ?h1 and xs = "map (\<lambda>s. Prim (Str s)) S" and R = ?R])
    show "array < ?n" by (rule array)
    show "?n \<le> length ?h1" by simp
    show "?h1 ! array = Array (map (\<lambda>s. Prim (Str s)) S)"
      using array cell by (simp add: nth_append string_array_def)
    show "length S = length (map (\<lambda>s. Prim (Str s)) S)" by simp
    show "keeps ?n ?h1 ?h1" by (rule keeps_refl)
    show "?h1 = h @ [string_array []]" by (simp add: string_array_def)
  next
    fix i g acc
    assume "i < length (map (\<lambda>s. Prim (Str s)) S)" and "g = h @ [string_array acc]"
    then show "case Inr (acc @ [up (S ! i)]) of
        Inl e \<Rightarrow> \<exists>g'. ?body (map (\<lambda>s. Prim (Str s)) S ! i) g = (Inl e, g') \<and> keeps ?n g g'
      | Inr acc' \<Rightarrow> \<exists>g'. ?body (map (\<lambda>s. Prim (Str s)) S ! i) g = (Inr (), g') \<and>
          keeps ?n g g' \<and> g' = h @ [string_array acc']"
      by (simp add: toUpperCase_call_def push_string_array keeps_def)
  qed
  then show ?thesis
    by (simp add: reduce_transformData transformData_imperative_heap_def new_def
        return_after_def transformData_imperative_def)
qed

lemma transformAndFilterData_imperative_heap_refines:
  assumes "string_array_at h array S"
  shows "transformAndFilterData_imperative_heap up array h =
     Some (Inr (Ref (length h)), h @ [string_array (transformAndFilterData_imperative up S)])"
proof -
  from assms have array: "array < length h" and cell: "h ! array = string_array S"
    by (simp_all add: string_array_at_def)
  let ?n = "length h" and ?h1 = "h @ [Array []]"
  let ?body = "\<lambda>element g. case startsWith_call element ''x'' of
                   Inl e \<Rightarrow> (Inl e, g)
                 | Inr starts \<Rightarrow>
                     if \<not> starts then (Inr (), g)
                     else (case toUpperCase_call up element of
                             Inl e \<Rightarrow> (Inl e, g)
                           | Inr v \<Rightarrow> push ?n v g)"
  let ?step = "\<lambda>acc s. Inr (if \<not> startsWith s ''x'' then acc else acc @ [up s])
                 :: error + string list"
  let ?R = "\<lambda>acc g. g = h @ [string_array acc]"
  have "case reduce ?step [] (drop 0 S) of
       Inl e \<Rightarrow> \<exists>h'. for_of ?body array 0 ?h1 = Some (Inl e, h') \<and> keeps ?n ?h1 h'
     | Inr acc' \<Rightarrow> \<exists>h'. for_of ?body array 0 ?h1 = Some (Inr (), h') \<and> keeps ?n ?h1 h' \<and>
         ?R acc' h'"
  proof (rule for_of_simulates [where h = ?h1 and xs = "map (\<lambda>s. Prim (Str s)) S" and R = ?R])
    show "array < ?n" by (rule array)
    show "?n \<le> length ?h1" by simp
    show "?h1 ! array = Array (map (\<lambda>s. Prim (Str s)) S)"
      using array cell by (simp add: nth_append string_array_def)
    show "length S = length (map (\<lambda>s. Prim (Str s)) S)" by simp
    show "keeps ?n ?h1 ?h1" by (rule keeps_refl)
    show "?h1 = h @ [string_array []]" by (simp add: string_array_def)
  next
    fix i g acc
    assume "i < length (map (\<lambda>s. Prim (Str s)) S)" and "g = h @ [string_array acc]"
    then show "case ?step acc (S ! i) of
        Inl e \<Rightarrow> \<exists>g'. ?body (map (\<lambda>s. Prim (Str s)) S ! i) g = (Inl e, g') \<and> keeps ?n g g'
      | Inr acc' \<Rightarrow> \<exists>g'. ?body (map (\<lambda>s. Prim (Str s)) S ! i) g = (Inr (), g') \<and>
          keeps ?n g g' \<and> g' = h @ [string_array acc']"
      by (simp add: toUpperCase_call_def startsWith_call_def push_string_array keeps_def)
  qed
  then show ?thesis
    by (simp add: reduce_transformAndFilterData transformAndFilterData_imperative_heap_def new_def
        return_after_def transformAndFilterData_imperative_def)
qed

lemma map_completion_toUpperCase:
  "map_completion (\<lambda>element. toUpperCase_call up element) (map (\<lambda>s. Prim (Str s)) S) =
     Inr (map (\<lambda>s. Prim (Str s)) (map up S))"
  by (induction S) (simp_all add: toUpperCase_call_def)

lemma filter_completion_startsWith:
  "filter_completion (\<lambda>element. startsWith_call element ''x'') (map (\<lambda>s. Prim (Str s)) S) =
     Inr (map (\<lambda>s. Prim (Str s)) (filter (\<lambda>s. startsWith s ''x'') S))"
  by (induction S) (simp_all add: startsWith_call_def)

lemma transformData_declarative_heap_refines:
  assumes "string_array_at h array S"
  shows "transformData_declarative_heap up array h =
     (Inr (Ref (length h)), h @ [string_array (transformData_declarative up S)])"
  using assms
  by (simp add: string_array_at_def transformData_declarative_heap_def array_map_def lookup_def
      new_def string_array_def map_completion_toUpperCase transformData_declarative_def)

lemma transformAndFilterData_declarative_heap_refines:
  assumes "string_array_at h array S"
  shows "transformAndFilterData_declarative_heap up array h =
     (Inr (Ref (Suc (length h))),
      h @ [string_array (filter (\<lambda>s. startsWith s ''x'') S),
           string_array (transformAndFilterData_declarative up S)])"
  using assms
  by (simp add: string_array_at_def transformAndFilterData_declarative_heap_def
      array_filter_def array_map_def lookup_def new_def string_array_def map_completion_toUpperCase
      filter_completion_startsWith transformAndFilterData_declarative_def nth_append
      list_update_append)

subsection \<open>Reading the records\<close>

lemma string_field_order_code:
  "order_record_at g a r \<Longrightarrow> string_field g (Ref a) ''code'' = Inr (order_record.code r)"
  by (auto simp: string_field_def lookup_def order_record_at_def)

lemma string_field_discount_code:
  "discount_record_at g a d \<Longrightarrow> string_field g (Ref a) ''code'' = Inr (discount_record.code d)"
  by (auto simp: string_field_def lookup_def discount_record_at_def)

lemma string_field_discount_discount:
  "discount_record_at g a d \<Longrightarrow> string_field g (Ref a) ''discount'' = Inr (discount d)"
  by (auto simp: string_field_def lookup_def discount_record_at_def)

lemma order_record_at_keeps:
  assumes "order_record_at h a r" and "keeps (length h) (h @ cells) g"
  shows "order_record_at g a r"
proof -
  from assms(1) have a: "a < length h" by (simp add: order_record_at_def)
  from keeps_nth [OF assms(2) a] have "g ! a = (h @ cells) ! a" .
  with a have "g ! a = h ! a" by (simp add: nth_append)
  moreover from assms(2) a have "a < length g" by (simp add: keeps_def)
  ultimately show ?thesis using assms(1) by (simp add: order_record_at_def)
qed

lemma discount_record_at_keeps:
  assumes "discount_record_at h a d" and "keeps (length h) (h @ cells) g"
  shows "discount_record_at g a d"
proof -
  from assms(1) have a: "a < length h" by (simp add: discount_record_at_def)
  from keeps_nth [OF assms(2) a] have "g ! a = (h @ cells) ! a" .
  with a have "g ! a = h ! a" by (simp add: nth_append)
  moreover from assms(2) a have "a < length g" by (simp add: keeps_def)
  ultimately show ?thesis using assms(1) by (simp add: discount_record_at_def)
qed

subsection \<open>count\<close>

lemma Get_map_option:
  "Get (map_option f \<circ> m) key =
     (case Get m key of Own v \<Rightarrow> Own (f v) | Inherited b \<Rightarrow> Inherited b | Undefined \<Rightarrow> Undefined)"
  by (simp add: Get_def split: option.splits)

lemma Set_primitive_map_option:
  "Set_primitive (map_option f \<circ> m) key (f v) = map_option f \<circ> Set_primitive m key v"
  by (rule ext) (simp add: Set_primitive_def split: option.splits builtin.splits)

lemma spread_with_map_option:
  "spread_with (map_option f \<circ> m) key (f v) = map_option f \<circ> spread_with m key v"
  by (rule ext) (simp add: spread_with_def)

lemma count_value_heap_counts:
  "r < length g \<Longrightarrow> g ! r = Object (map_option Prim \<circ> counts) \<Longrightarrow>
   count_value_heap r key g = Inr (Prim (count_value counts key))"
  by (simp add: count_value_heap_def lookup_def Get_map_option count_value_def
      split: property.splits)

lemma reduce_count_imperative:
  "reduce (\<lambda>acc r. Inr (Set_primitive acc (order_record.code r)
             (count_value acc (order_record.code r)))) acc orders =
     Inr (count_imperative_loop orders acc)"
  by (induction orders arbitrary: acc) simp_all

lemma count_imperative_heap_refines:
  assumes cell: "order_array_at h array orders"
  shows "count_imperative_heap array h =
     Some (Inr (Ref (length h)), h @ [Object (map_option Prim \<circ> count_imperative orders)])"
proof -
  from cell obtain refs where array: "array < length h"
    and arr: "h ! array = Array (map Ref refs)" and len: "length refs = length orders"
    and recs: "\<forall>i < length orders. order_record_at h (refs ! i) (orders ! i)"
    by (auto simp: order_array_at_def)
  let ?n = "length h" and ?h1 = "h @ [Object Map.empty]"
  let ?body = "\<lambda>element g. case string_field g element ''code'' of
                   Inl e \<Rightarrow> (Inl e, g)
                 | Inr c \<Rightarrow>
                     (case count_value_heap ?n c g of
                        Inl e \<Rightarrow> (Inl e, g)
                      | Inr v \<Rightarrow> assign ?n c v g)"
  let ?step = "\<lambda>acc r. Inr (Set_primitive acc (order_record.code r)
                 (count_value acc (order_record.code r))) :: error + (string \<rightharpoonup> jsval)"
  let ?R = "\<lambda>acc g. g = h @ [Object (map_option Prim \<circ> acc)]"
  have "case reduce ?step Map.empty (drop 0 orders) of
       Inl e \<Rightarrow> \<exists>h'. for_of ?body array 0 ?h1 = Some (Inl e, h') \<and> keeps ?n ?h1 h'
     | Inr acc' \<Rightarrow> \<exists>h'. for_of ?body array 0 ?h1 = Some (Inr (), h') \<and> keeps ?n ?h1 h' \<and>
         ?R acc' h'"
  proof (rule for_of_simulates [where h = ?h1 and xs = "map Ref refs" and R = ?R])
    show "array < ?n" by (rule array)
    show "?n \<le> length ?h1" by simp
    show "?h1 ! array = Array (map Ref refs)" using array arr by (simp add: nth_append)
    show "length orders = length (map Ref refs)" using len by simp
    show "keeps ?n ?h1 ?h1" by (rule keeps_refl)
    show "?h1 = h @ [Object (map_option Prim \<circ> Map.empty)]" by simp
  next
    fix i g acc
    assume i: "i < length (map Ref refs)" and k: "keeps ?n ?h1 g"
      and g: "g = h @ [Object (map_option Prim \<circ> acc)]"
    from i len have i': "i < length orders" by simp
    with len have el: "map Ref refs ! i = Ref (refs ! i)" by simp
    from recs i' k have r: "order_record_at g (refs ! i) (orders ! i)"
      by (blast intro: order_record_at_keeps)
    let ?c = "order_record.code (orders ! i)"
    have cv: "count_value_heap ?n ?c g = Inr (Prim (count_value acc ?c))"
      using g by (intro count_value_heap_counts) simp_all
    have "assign ?n ?c (Prim (count_value acc ?c)) g =
        (Inr (), h @ [Object (map_option Prim \<circ> Set_primitive acc ?c (count_value acc ?c))])"
      using g by (simp add: assign_def lookup_def Set_primitive_map_option)
    with el cv string_field_order_code [OF r]
    show "case ?step acc (orders ! i) of
        Inl e \<Rightarrow> \<exists>g'. ?body (map Ref refs ! i) g = (Inl e, g') \<and> keeps ?n g g'
      | Inr acc' \<Rightarrow> \<exists>g'. ?body (map Ref refs ! i) g = (Inr (), g') \<and> keeps ?n g g' \<and>
          g' = h @ [Object (map_option Prim \<circ> acc')]"
      using g by (simp add: keeps_def)
  qed
  then show ?thesis
    by (simp add: reduce_count_imperative count_imperative_heap_def new_def
        return_after_def count_imperative_def)
qed

lemma count_declarative_returns:
  "\<exists>counts. reduce (\<lambda>counts r. Inr (spread_with counts (order_record.code r)
             (count_value counts (order_record.code r)))) acc orders = Inr counts"
  by (induction orders arbitrary: acc) simp_all

lemma count_declarative_heap_refines:
  assumes cell: "order_array_at h array orders"
  shows "\<exists>counts v h'. count_declarative orders = Inr counts \<and>
     count_declarative_heap array h = (Inr v, h') \<and> represents_counts h' v counts"
proof -
  from cell obtain refs where array: "array < length h"
    and arr: "h ! array = Array (map Ref refs)" and len: "length refs = length orders"
    and recs: "\<forall>i < length orders. order_record_at h (refs ! i) (orders ! i)"
    by (auto simp: order_array_at_def)
  let ?n = "length h" and ?h1 = "h @ [Object Map.empty]"
  let ?cb = "\<lambda>counts element g.
              case string_field g element ''code'' of
                Inl e \<Rightarrow> (Inl e, g)
              | Inr c \<Rightarrow>
                  (case object_spread counts g of
                     (Inl e, g1) \<Rightarrow> (Inl e, g1)
                   | (Inr literal, g1) \<Rightarrow>
                       (case counts of
                          Prim _ \<Rightarrow> (Inl TypeError, g1)
                        | Ref r \<Rightarrow>
                            (case count_value_heap r c g1 of
                               Inl e \<Rightarrow> (Inl e, g1)
                             | Inr v \<Rightarrow> define_property literal c v g1)))"
  let ?step = "\<lambda>counts r. Inr (spread_with counts (order_record.code r)
                 (count_value counts (order_record.code r))) :: error + (string \<rightharpoonup> jsval)"
  let ?R = "\<lambda>acc v g. represents_counts g v acc"
  from array have look: "lookup ?h1 array = Some (Array (map Ref refs))"
    using arr by (simp add: lookup_def nth_append)
  have "case reduce ?step Map.empty (drop 0 orders) of
       Inl e \<Rightarrow> \<exists>h'. array_reduce_from ?cb array (length (map Ref refs)) 0 (Ref ?n) ?h1 =
           (Inl e, h') \<and> keeps ?n ?h1 h'
     | Inr acc' \<Rightarrow> \<exists>v' h'. array_reduce_from ?cb array (length (map Ref refs)) 0 (Ref ?n) ?h1 =
           (Inr v', h') \<and> keeps ?n ?h1 h' \<and> ?R acc' v' h'"
  proof (rule array_reduce_from_simulates [where h = ?h1 and R = ?R])
    show "array < ?n" by (rule array)
    show "?n \<le> length ?h1" by simp
    show "?h1 ! array = Array (map Ref refs)" using array arr by (simp add: nth_append)
    show "length orders = length (map Ref refs)" using len by simp
    show "keeps ?n ?h1 ?h1" by (rule keeps_refl)
    show "represents_counts ?h1 (Ref ?n) Map.empty" by (simp add: represents_counts_def)
  next
    fix k g acc v
    assume i: "k < length (map Ref refs)" and kp: "keeps ?n ?h1 g"
      and R: "represents_counts g v acc"
    from i len have i': "k < length orders" by simp
    with len have el: "map Ref refs ! k = Ref (refs ! k)" by simp
    from recs i' kp have r: "order_record_at g (refs ! k) (orders ! k)"
      by (blast intro: order_record_at_keeps)
    from R obtain q where v: "v = Ref q" and q: "q < length g"
      and cellq: "g ! q = Object (map_option Prim \<circ> acc)"
      by (auto simp: represents_counts_def)
    let ?c = "order_record.code (orders ! k)"
    let ?g1 = "g @ [Object (map_option Prim \<circ> acc)]"
    let ?g' = "g @ [Object (map_option Prim \<circ> spread_with acc ?c (count_value acc ?c))]"
    have sp: "object_spread v g = (Inr (Ref (length g)), ?g1)"
      using v q cellq by (simp add: object_spread_def lookup_def new_def)
    have cv: "count_value_heap q ?c ?g1 = Inr (Prim (count_value acc ?c))"
      using q cellq by (intro count_value_heap_counts) (simp_all add: nth_append)
    have dp: "define_property (Ref (length g)) ?c (Prim (count_value acc ?c)) ?g1 =
        (Inr (Ref (length g)), ?g')"
      by (simp add: define_property_def lookup_def spread_with_map_option)
    have "?cb v (map Ref refs ! k) g = (Inr (Ref (length g)), ?g')"
      using el string_field_order_code [OF r] sp v cv dp by simp
    moreover have "keeps ?n g ?g'" using kp by (simp add: keeps_def)
    moreover have "represents_counts ?g' (Ref (length g))
        (spread_with acc ?c (count_value acc ?c))"
      by (simp add: represents_counts_def)
    ultimately
    show "case ?step acc (orders ! k) of
        Inl e \<Rightarrow> \<exists>g'. ?cb v (map Ref refs ! k) g = (Inl e, g') \<and> keeps ?n g g'
      | Inr acc' \<Rightarrow> \<exists>v' g'. ?cb v (map Ref refs ! k) g = (Inr v', g') \<and> keeps ?n g g' \<and>
          represents_counts g' v' acc'"
      by simp
  qed
  moreover from count_declarative_returns obtain counts
    where "reduce ?step Map.empty orders = Inr counts" by blast
  ultimately show ?thesis using look
    by (auto simp: count_declarative_heap_def new_def array_reduce_def count_declarative_def)
qed

subsection \<open>groupData\<close>

lemma group_value_heap_groups:
  assumes r: "r < length g" and cell: "g ! r = Object props"
    and rep: "\<forall>key. case acc key of
                None \<Rightarrow> props key = None
              | Some codes \<Rightarrow>
                  (\<exists>a. props key = Some (Ref a) \<and> a < length g \<and> g ! a = string_array codes)"
  shows "case group_value acc d c of
           Inl e \<Rightarrow> group_value_heap r d c g = (Inl e, g)
         | Inr codes \<Rightarrow>
             group_value_heap r d c g = (Inr (Ref (length g)), g @ [string_array codes])"
proof (cases "acc d")
  case None
  with spec [OF rep, of d] have "props d = None" by simp
  with None r cell show ?thesis
    by (simp add: group_value_def group_value_heap_def Get_def lookup_def new_def
        string_array_def split: option.splits)
next
  case (Some codes)
  with spec [OF rep, of d] obtain a where "props d = Some (Ref a)" and "a < length g"
    and "g ! a = string_array codes" by auto
  with Some r cell show ?thesis
    by (simp add: group_value_def group_value_heap_def Get_def lookup_def new_def
        string_array_def)
qed

lemma represents_groups_update:
  assumes r: "r < length g" and cell: "g ! r = Object props"
    and rep: "\<forall>key. case acc key of
                None \<Rightarrow> props key = None
              | Some codes \<Rightarrow>
                  (\<exists>a. props key = Some (Ref a) \<and> a < length g \<and> g ! a = string_array codes)"
    and q: "q < length g'" and cellq: "g' ! q = Object (props(d \<mapsto> Ref b))"
    and b: "b < length g'" and cellb: "g' ! b = string_array codes"
    and same: "\<forall>a < length g. a \<noteq> r \<longrightarrow> g' ! a = g ! a" and len: "length g \<le> length g'"
  shows "represents_groups g' (Ref q) (acc(d \<mapsto> codes))"
  unfolding represents_groups_def
proof (intro exI conjI allI)
  show "Ref q = Ref q" ..
  show "q < length g'" by (rule q)
  show "g' ! q = Object (props(d \<mapsto> Ref b))" by (rule cellq)
  fix key
  show "case (acc(d \<mapsto> codes)) key of
          None \<Rightarrow> (props(d \<mapsto> Ref b)) key = None
        | Some cs \<Rightarrow> \<exists>a. (props(d \<mapsto> Ref b)) key = Some (Ref a) \<and> a < length g' \<and>
            g' ! a = string_array cs"
  proof (cases "key = d")
    case True
    with b cellb show ?thesis by simp
  next
    case False
    show ?thesis
    proof (cases "acc key")
      case None
      with spec [OF rep, of key] have "props key = None" by simp
      with None False show ?thesis by simp
    next
      case (Some cs)
      with spec [OF rep, of key] obtain a where a: "props key = Some (Ref a)" "a < length g"
        "g ! a = string_array cs" by auto
      with cell have "a \<noteq> r" by (auto simp: string_array_def)
      with same a have "g' ! a = string_array cs" by simp
      with a len Some False show ?thesis by simp
    qed
  qed
qed

lemma reduce_groupData_imperative:
  "reduce (\<lambda>acc d. case group_value acc (discount d) (discount_record.code d) of
             Inl e \<Rightarrow> Inl e
           | Inr v \<Rightarrow> Inr (acc(discount d \<mapsto> v))) acc discounts =
     groupData_imperative_loop discounts acc"
  by (induction discounts arbitrary: acc) (simp_all split: sum.splits)

lemma groupData_imperative_heap_refines:
  assumes cell: "discount_array_at h array discounts"
  shows "case groupData_imperative discounts of
           Inl e \<Rightarrow> \<exists>h'. groupData_imperative_heap array h = Some (Inl e, h')
         | Inr grouped \<Rightarrow>
             \<exists>h'. groupData_imperative_heap array h = Some (Inr (Ref (length h)), h') \<and>
               represents_groups h' (Ref (length h)) grouped"
proof -
  from cell obtain refs where array: "array < length h"
    and arr: "h ! array = Array (map Ref refs)" and len: "length refs = length discounts"
    and recs: "\<forall>i < length discounts. discount_record_at h (refs ! i) (discounts ! i)"
    by (auto simp: discount_array_at_def)
  let ?n = "length h" and ?h1 = "h @ [Object Map.empty]"
  let ?body = "\<lambda>element g.
                 case string_field g element ''code'' of
                   Inl e \<Rightarrow> (Inl e, g)
                 | Inr c \<Rightarrow>
                     (case string_field g element ''discount'' of
                        Inl e \<Rightarrow> (Inl e, g)
                      | Inr d \<Rightarrow>
                          (case group_value_heap ?n d c g of
                             (Inl e, g') \<Rightarrow> (Inl e, g')
                           | (Inr v, g') \<Rightarrow> assign ?n d v g'))"
  let ?step = "\<lambda>acc d. case group_value acc (discount d) (discount_record.code d) of
                 Inl e \<Rightarrow> Inl e
               | Inr v \<Rightarrow> Inr (acc(discount d \<mapsto> v))"
  let ?R = "\<lambda>acc g. represents_groups g (Ref ?n) acc"
  have "case reduce ?step Map.empty (drop 0 discounts) of
       Inl e \<Rightarrow> \<exists>h'. for_of ?body array 0 ?h1 = Some (Inl e, h') \<and> keeps ?n ?h1 h'
     | Inr acc' \<Rightarrow> \<exists>h'. for_of ?body array 0 ?h1 = Some (Inr (), h') \<and> keeps ?n ?h1 h' \<and>
         ?R acc' h'"
  proof (rule for_of_simulates [where h = ?h1 and xs = "map Ref refs" and R = ?R])
    show "array < ?n" by (rule array)
    show "?n \<le> length ?h1" by simp
    show "?h1 ! array = Array (map Ref refs)" using array arr by (simp add: nth_append)
    show "length discounts = length (map Ref refs)" using len by simp
    show "keeps ?n ?h1 ?h1" by (rule keeps_refl)
    show "represents_groups ?h1 (Ref ?n) Map.empty" by (simp add: represents_groups_def)
  next
    fix i g acc
    assume i: "i < length (map Ref refs)" and k: "keeps ?n ?h1 g"
      and R: "represents_groups g (Ref ?n) acc"
    from i len have i': "i < length discounts" by simp
    with len have el: "map Ref refs ! i = Ref (refs ! i)" by simp
    from recs i' k have r: "discount_record_at g (refs ! i) (discounts ! i)"
      by (blast intro: discount_record_at_keeps)
    from R obtain props where n: "?n < length g" and celln: "g ! ?n = Object props"
      and rep: "\<forall>key. case acc key of
                None \<Rightarrow> props key = None
              | Some codes \<Rightarrow>
                  (\<exists>a. props key = Some (Ref a) \<and> a < length g \<and> g ! a = string_array codes)"
      by (auto simp: represents_groups_def)
    let ?d = "discount (discounts ! i)" and ?c = "discount_record.code (discounts ! i)"
    note fields = string_field_discount_code [OF r] string_field_discount_discount [OF r]
    note gv = group_value_heap_groups [OF n celln rep, of ?d ?c]
    show "case ?step acc (discounts ! i) of
        Inl e \<Rightarrow> \<exists>g'. ?body (map Ref refs ! i) g = (Inl e, g') \<and> keeps ?n g g'
      | Inr acc' \<Rightarrow> \<exists>g'. ?body (map Ref refs ! i) g = (Inr (), g') \<and> keeps ?n g g' \<and>
          represents_groups g' (Ref ?n) acc'"
    proof (cases "group_value acc ?d ?c")
      case (Inl e)
      with gv el fields show ?thesis by (simp add: keeps_refl)
    next
      case (Inr codes)
      let ?g1 = "g @ [string_array codes]"
      let ?g' = "?g1[?n := Object (props(?d \<mapsto> Ref (length g)))]"
      from Inr gv have gvh: "group_value_heap ?n ?d ?c g = (Inr (Ref (length g)), ?g1)" by simp
      from n celln have "assign ?n ?d (Ref (length g)) ?g1 = (Inr (), ?g')"
        by (simp add: assign_def lookup_def nth_append)
      with gvh el fields have run: "?body (map Ref refs ! i) g = (Inr (), ?g')" by simp
      have kp: "keeps ?n g ?g'" using n by (simp add: keeps_def)
      have "represents_groups ?g' (Ref ?n) (acc(?d \<mapsto> codes))"
      proof (rule represents_groups_update [OF n celln rep, where b = "length g"])
        show "?n < length ?g'" using n by simp
        show "?g' ! ?n = Object (props(?d \<mapsto> Ref (length g)))" using n by simp
        show "length g < length ?g'" by simp
        show "?g' ! length g = string_array codes" using n by simp
        show "\<forall>a < length g. a \<noteq> ?n \<longrightarrow> ?g' ! a = g ! a" by (simp add: nth_append)
        show "length g \<le> length ?g'" by simp
      qed
      with Inr run kp show ?thesis by auto
    qed
  qed
  then show ?thesis
    by (auto simp: reduce_groupData_imperative groupData_imperative_heap_def new_def
        return_after_def groupData_imperative_def split: sum.splits)
qed

lemma groupData_declarative_heap_refines:
  assumes cell: "discount_array_at h array discounts"
  shows "case groupData_declarative discounts of
           Inl e \<Rightarrow> \<exists>h'. groupData_declarative_heap array h = (Inl e, h')
         | Inr grouped \<Rightarrow>
             \<exists>v h'. groupData_declarative_heap array h = (Inr v, h') \<and>
               represents_groups h' v grouped"
proof -
  from cell obtain refs where array: "array < length h"
    and arr: "h ! array = Array (map Ref refs)" and len: "length refs = length discounts"
    and recs: "\<forall>i < length discounts. discount_record_at h (refs ! i) (discounts ! i)"
    by (auto simp: discount_array_at_def)
  let ?n = "length h" and ?h1 = "h @ [Object Map.empty]"
  let ?cb = "\<lambda>grouped element g.
              case string_field g element ''discount'' of
                Inl e \<Rightarrow> (Inl e, g)
              | Inr d \<Rightarrow>
                  (case string_field g element ''code'' of
                     Inl e \<Rightarrow> (Inl e, g)
                   | Inr c \<Rightarrow>
                       (case object_spread grouped g of
                          (Inl e, g1) \<Rightarrow> (Inl e, g1)
                        | (Inr literal, g1) \<Rightarrow>
                            (case grouped of
                               Prim _ \<Rightarrow> (Inl TypeError, g1)
                             | Ref r \<Rightarrow>
                                 (case group_value_heap r d c g1 of
                                    (Inl e, g2) \<Rightarrow> (Inl e, g2)
                                  | (Inr v, g2) \<Rightarrow> define_property literal d v g2))))"
  let ?step = "\<lambda>grouped d. case group_value grouped (discount d) (discount_record.code d) of
                 Inl e \<Rightarrow> Inl e
               | Inr v \<Rightarrow> Inr (spread_with grouped (discount d) v)"
  let ?R = "\<lambda>acc v g. represents_groups g v acc"
  from array have look: "lookup ?h1 array = Some (Array (map Ref refs))"
    using arr by (simp add: lookup_def nth_append)
  have "case reduce ?step Map.empty (drop 0 discounts) of
       Inl e \<Rightarrow> \<exists>h'. array_reduce_from ?cb array (length (map Ref refs)) 0 (Ref ?n) ?h1 =
           (Inl e, h') \<and> keeps ?n ?h1 h'
     | Inr acc' \<Rightarrow> \<exists>v' h'. array_reduce_from ?cb array (length (map Ref refs)) 0 (Ref ?n) ?h1 =
           (Inr v', h') \<and> keeps ?n ?h1 h' \<and> ?R acc' v' h'"
  proof (rule array_reduce_from_simulates [where h = ?h1 and R = ?R])
    show "array < ?n" by (rule array)
    show "?n \<le> length ?h1" by simp
    show "?h1 ! array = Array (map Ref refs)" using array arr by (simp add: nth_append)
    show "length discounts = length (map Ref refs)" using len by simp
    show "keeps ?n ?h1 ?h1" by (rule keeps_refl)
    show "represents_groups ?h1 (Ref ?n) Map.empty" by (simp add: represents_groups_def)
  next
    fix k g acc v
    assume i: "k < length (map Ref refs)" and kp: "keeps ?n ?h1 g"
      and R: "represents_groups g v acc"
    from i len have i': "k < length discounts" by simp
    with len have el: "map Ref refs ! k = Ref (refs ! k)" by simp
    from recs i' kp have r: "discount_record_at g (refs ! k) (discounts ! k)"
      by (blast intro: discount_record_at_keeps)
    from R obtain q props where v: "v = Ref q" and q: "q < length g"
      and cellq: "g ! q = Object props"
      and rep: "\<forall>key. case acc key of
                None \<Rightarrow> props key = None
              | Some codes \<Rightarrow>
                  (\<exists>a. props key = Some (Ref a) \<and> a < length g \<and> g ! a = string_array codes)"
      by (auto simp: represents_groups_def)
    let ?d = "discount (discounts ! k)" and ?c = "discount_record.code (discounts ! k)"
    let ?g1 = "g @ [Object props]"
    note fields = string_field_discount_code [OF r] string_field_discount_discount [OF r]
    have sp: "object_spread v g = (Inr (Ref (length g)), ?g1)"
      using v q cellq by (simp add: object_spread_def lookup_def new_def)
    have q1: "q < length ?g1" and cellq1: "?g1 ! q = Object props"
      using q cellq by (simp_all add: nth_append)
    have rep1: "\<forall>key. case acc key of
                None \<Rightarrow> props key = None
              | Some codes \<Rightarrow>
                  (\<exists>a. props key = Some (Ref a) \<and> a < length ?g1 \<and> ?g1 ! a = string_array codes)"
    proof
      fix key
      from spec [OF rep, of key]
      show "case acc key of
                None \<Rightarrow> props key = None
              | Some codes \<Rightarrow>
                  (\<exists>a. props key = Some (Ref a) \<and> a < length ?g1 \<and> ?g1 ! a = string_array codes)"
        by (cases "acc key") (auto simp: nth_append)
    qed
    note gv = group_value_heap_groups [OF q1 cellq1 rep1, of ?d ?c]
    show "case ?step acc (discounts ! k) of
        Inl e \<Rightarrow> \<exists>g'. ?cb v (map Ref refs ! k) g = (Inl e, g') \<and> keeps ?n g g'
      | Inr acc' \<Rightarrow> \<exists>v' g'. ?cb v (map Ref refs ! k) g = (Inr v', g') \<and> keeps ?n g g' \<and>
          represents_groups g' v' acc'"
    proof (cases "group_value acc ?d ?c")
      case (Inl e)
      with gv el fields sp v have "?cb v (map Ref refs ! k) g = (Inl e, ?g1)" by simp
      moreover from kp have "keeps ?n g ?g1" by (simp add: keeps_def)
      ultimately show ?thesis using Inl by simp
    next
      case (Inr codes)
      let ?g2 = "?g1 @ [string_array codes]"
      let ?g' = "?g2[length g := Object (props(?d \<mapsto> Ref (length ?g1)))]"
      from Inr gv have gvh: "group_value_heap q ?d ?c ?g1 = (Inr (Ref (length ?g1)), ?g2)"
        by simp
      have "define_property (Ref (length g)) ?d (Ref (length ?g1)) ?g2 =
          (Inr (Ref (length g)), ?g')"
        by (simp add: define_property_def lookup_def nth_append spread_with_def)
      with gvh el fields sp v have run: "?cb v (map Ref refs ! k) g = (Inr (Ref (length g)), ?g')"
        by simp
      from kp have kg: "keeps ?n g ?g'" by (simp add: keeps_def)
      have "represents_groups ?g' (Ref (length g)) (acc(?d \<mapsto> codes))"
      proof (rule represents_groups_update [OF q cellq rep, where b = "length ?g1"])
        show "length g < length ?g'" by simp
        show "?g' ! length g = Object (props(?d \<mapsto> Ref (length ?g1)))" by simp
        show "length ?g1 < length ?g'" by simp
        show "?g' ! length ?g1 = string_array codes" by (simp add: nth_append)
        show "\<forall>a < length g. a \<noteq> q \<longrightarrow> ?g' ! a = g ! a" by (simp add: nth_append)
        show "length g \<le> length ?g'" by simp
      qed
      with Inr run kg show ?thesis by (auto simp: spread_with_def)
    qed
  qed
  with look show ?thesis
    by (auto simp: groupData_declarative_heap_def new_def array_reduce_def
        groupData_declarative_def split: sum.splits)
qed

subsection \<open>The store of the examples holds the data of the comments\<close>

lemma example_store_strings: "string_array_at example_store 0 [''x'', ''y'', ''z'']"
  by (simp add: string_array_at_def example_store_def string_array_def)

lemma example_store_discounts: "discount_array_at example_store 6 scenario_4"
  unfolding discount_array_at_def
proof (intro exI conjI)
  show "(6::nat) < length example_store" by (simp add: example_store_def)
  show "example_store ! 6 = Array (map Ref [1, 2, 3, 4, 5])"
    by (simp add: example_store_def)
  show "length [1, 2, 3, 4, 5 :: nat] = length scenario_4"
    by (simp add: scenario_4_def)
  show "\<forall>i < length scenario_4. discount_record_at example_store ([1, 2, 3, 4, 5] ! i) (scenario_4 ! i)"
    by (simp add: scenario_4_def example_store_def discount_record_at_def less_Suc_eq
        all_conj_distrib conj_disj_distribR all_simps)
qed

lemma example_store_orders: "order_array_at example_store 12 scenario_5"
  unfolding order_array_at_def
proof (intro exI conjI)
  show "(12::nat) < length example_store" by (simp add: example_store_def)
  show "example_store ! 12 = Array (map Ref [7, 8, 9, 10, 11])"
    by (simp add: example_store_def)
  show "length [7, 8, 9, 10, 11 :: nat] = length scenario_5"
    by (simp add: scenario_5_def)
  show "\<forall>i < length scenario_5. order_record_at example_store ([7, 8, 9, 10, 11] ! i) (scenario_5 ! i)"
    by (simp add: scenario_5_def example_store_def order_record_at_def less_Suc_eq
        all_conj_distrib conj_disj_distribR all_simps)
qed

lemma example_store_grouping:
  "\<exists>h'. groupData_imperative_heap 6 example_store = Some (Inr (Ref 13), h') \<and>
      represents_groups h' (Ref 13) scenario_4_grouped"
proof -
  have "groupData_imperative scenario_4 = Inr scenario_4_grouped"
    using groupData_groups_by_discount(1) [OF scenario_4_safe]
    by (simp add: scenario_4_group_by_discount)
  moreover have "length example_store = 13"
    by (simp add: example_store_def)
  ultimately show ?thesis
    using groupData_imperative_heap_refines [OF example_store_discounts] by simp
qed

subsection \<open>When the grouping throws\<close>

lemma groupData_imperative_loop_throws:
  "\<forall>key. inherited_key key \<longrightarrow> result key = None \<Longrightarrow>
   \<exists>d \<in> set discounts. inherited_key (discount d) \<Longrightarrow>
   groupData_imperative_loop discounts result = Inl TypeError"
proof (induction discounts arbitrary: result)
  case Nil
  then show ?case by simp
next
  case (Cons d ds)
  show ?case
  proof (cases "inherited_key (discount d)")
    case True
    with Cons.prems(1) have "group_value result (discount d) (discount_record.code d) = Inl TypeError"
      by (auto simp: group_value_def Get_def inherited_key_def split: option.splits)
    then show ?thesis by simp
  next
    case False
    let ?v = "(case result (discount d) of Some codes \<Rightarrow> codes | None \<Rightarrow> []) @ [discount_record.code d]"
    from False have step: "group_value result (discount d) (discount_record.code d) = Inr ?v"
      by (rule group_value_not_inherited)
    from False Cons.prems(1)
    have inv: "\<forall>key. inherited_key key \<longrightarrow> (result(discount d \<mapsto> ?v)) key = None" by auto
    from False Cons.prems(2) have "\<exists>d \<in> set ds. inherited_key (discount d)" by auto
    from Cons.IH [OF inv this]
    have rest: "groupData_imperative_loop ds (result(discount d \<mapsto> ?v)) = Inl TypeError" .
    show ?thesis by (simp only: groupData_imperative_loop.simps step sum.case rest)
  qed
qed

lemma groupData_throws:
  assumes "\<exists>d \<in> set discounts. inherited_key (discount d)"
  shows "groupData_imperative discounts = Inl TypeError"
    and "groupData_declarative discounts = Inl TypeError"
proof -
  from groupData_imperative_loop_throws [OF _ assms, of Map.empty]
  show "groupData_imperative discounts = Inl TypeError"
    by (simp add: groupData_imperative_def)
  then show "groupData_declarative discounts = Inl TypeError"
    by (simp add: groupData_imperative_eq_declarative)
qed

subsection \<open>Returning, and what is left\<close>

lemma returns_fresh_Inr:
  "leaves_input_unchanged h (Inr v, h') \<Longrightarrow> returns_fresh h (Inr v, h')"
  by (simp add: leaves_input_unchanged_def returns_fresh_def)

lemma throws_unchanged_Inl:
  "leaves_input_unchanged h (Inl e, h') \<Longrightarrow> throws_unchanged h (Inl e, h')"
  by (simp add: leaves_input_unchanged_def throws_unchanged_def)

lemma transformData_imperative_heap_returns:
  assumes "string_array_at h array S"
  shows "\<exists>outcome. transformData_imperative_heap up array h = Some outcome \<and>
           returns_fresh h outcome"
proof -
  from assms have "array < length h" by (simp add: string_array_at_def)
  from transformData_imperative_heap_frame [OF this, of up]
    transformData_imperative_heap_refines [OF assms, of up]
  show ?thesis by (auto intro: returns_fresh_Inr)
qed

lemma transformData_declarative_heap_returns:
  assumes "string_array_at h array S"
  shows "returns_fresh h (transformData_declarative_heap up array h)"
  using transformData_declarative_heap_frame [of h up array]
    transformData_declarative_heap_refines [OF assms, of up]
  by (auto intro: returns_fresh_Inr)

lemma transformAndFilterData_imperative_heap_returns:
  assumes "string_array_at h array S"
  shows "\<exists>outcome. transformAndFilterData_imperative_heap up array h = Some outcome \<and>
           returns_fresh h outcome"
proof -
  from assms have "array < length h" by (simp add: string_array_at_def)
  from transformAndFilterData_imperative_heap_frame [OF this, of up]
    transformAndFilterData_imperative_heap_refines [OF assms, of up]
  show ?thesis by (auto intro: returns_fresh_Inr)
qed

lemma transformAndFilterData_declarative_heap_returns:
  assumes "string_array_at h array S"
  shows "returns_fresh h (transformAndFilterData_declarative_heap up array h)"
  using transformAndFilterData_declarative_heap_frame [of h up array]
    transformAndFilterData_declarative_heap_refines [OF assms, of up]
  by (auto intro: returns_fresh_Inr)

lemma count_imperative_heap_returns:
  assumes "order_array_at h array orders"
  shows "\<exists>outcome. count_imperative_heap array h = Some outcome \<and> returns_fresh h outcome"
proof -
  from assms have "array < length h" by (simp add: order_array_at_def)
  from count_imperative_heap_frame [OF this] count_imperative_heap_refines [OF assms]
  show ?thesis by (auto intro: returns_fresh_Inr)
qed

lemma count_declarative_heap_returns:
  assumes "order_array_at h array orders"
  shows "returns_fresh h (count_declarative_heap array h)"
proof -
  from assms have "array < length h" by (simp add: order_array_at_def)
  from count_declarative_heap_frame [OF this] count_declarative_heap_refines [OF assms]
  show ?thesis by (auto intro: returns_fresh_Inr)
qed

lemma groupData_imperative_heap_returns:
  assumes "discount_array_at h array discounts"
  shows "\<exists>outcome. groupData_imperative_heap array h = Some outcome \<and>
           (if \<exists>d \<in> set discounts. inherited_key (discount d)
            then throws_unchanged h outcome else returns_fresh h outcome)"
proof -
  from assms have "array < length h" by (simp add: discount_array_at_def)
  note frame = groupData_imperative_heap_frame [OF this]
  note refines = groupData_imperative_heap_refines [OF assms]
  show ?thesis
  proof (cases "\<exists>d \<in> set discounts. inherited_key (discount d)")
    case True
    from groupData_throws(1) [OF True] refines frame True show ?thesis
      by (auto intro: throws_unchanged_Inl)
  next
    case False
    then have "\<forall>d \<in> set discounts. \<not> inherited_key (discount d)" by simp
    from groupData_groups_by_discount(1) [OF this] refines frame False show ?thesis
      by (auto intro: returns_fresh_Inr)
  qed
qed

lemma groupData_declarative_heap_returns:
  assumes "discount_array_at h array discounts"
  shows "if \<exists>d \<in> set discounts. inherited_key (discount d)
         then throws_unchanged h (groupData_declarative_heap array h)
         else returns_fresh h (groupData_declarative_heap array h)"
proof -
  from assms have "array < length h" by (simp add: discount_array_at_def)
  note frame = groupData_declarative_heap_frame [OF this]
  note refines = groupData_declarative_heap_refines [OF assms]
  show ?thesis
  proof (cases "\<exists>d \<in> set discounts. inherited_key (discount d)")
    case True
    from groupData_throws(2) [OF True] refines frame True show ?thesis
      by (auto intro: throws_unchanged_Inl)
  next
    case False
    then have "\<forall>d \<in> set discounts. \<not> inherited_key (discount d)" by simp
    from groupData_groups_by_discount(2) [OF this] refines frame False show ?thesis
      by (auto intro: returns_fresh_Inr)
  qed
qed


section \<open>The claim about the store\<close>

text \<open>
  C8.  Each of the eight functions, called with a reference to an array of the store
  that holds what its parameter type says, ends and leaves every cell that existed
  before the call as it was, so the input array and the records in it are unchanged.
  The two forms of \<^verbatim>\<open>transformData\<close>, of \<^verbatim>\<open>transformAndFilterData\<close> and of \<^verbatim>\<open>count\<close>
  always return, and so do the two forms of \<^verbatim>\<open>groupData\<close> unless a discount is the name
  of a property of \<^verbatim>\<open>Object.prototype\<close>, where they throw; and what a function returns
  is a reference to a cell that the call allocated, from which no cell that existed
  before can be reached.  Each function has its own hypothesis: the store need hold no
  more than the array it is called with.
\<close>

theorem task_functions_leave_input_unchanged:
  "(string_array_at h array S \<longrightarrow>
      (\<exists>outcome. transformData_imperative_heap toUpperCase array h = Some outcome \<and>
         returns_fresh h outcome)) \<and>
   (string_array_at h array S \<longrightarrow>
      returns_fresh h (transformData_declarative_heap toUpperCase array h)) \<and>
   (string_array_at h array S \<longrightarrow>
      (\<exists>outcome. transformAndFilterData_imperative_heap toUpperCase array h = Some outcome \<and>
         returns_fresh h outcome)) \<and>
   (string_array_at h array S \<longrightarrow>
      returns_fresh h (transformAndFilterData_declarative_heap toUpperCase array h)) \<and>
   (discount_array_at h discounts ds \<longrightarrow>
      (\<exists>outcome. groupData_imperative_heap discounts h = Some outcome \<and>
         (if \<exists>d \<in> set ds. inherited_key (discount d)
          then throws_unchanged h outcome else returns_fresh h outcome))) \<and>
   (discount_array_at h discounts ds \<longrightarrow>
      (if \<exists>d \<in> set ds. inherited_key (discount d)
       then throws_unchanged h (groupData_declarative_heap discounts h)
       else returns_fresh h (groupData_declarative_heap discounts h))) \<and>
   (order_array_at h orders os \<longrightarrow>
      (\<exists>outcome. count_imperative_heap orders h = Some outcome \<and> returns_fresh h outcome)) \<and>
   (order_array_at h orders os \<longrightarrow> returns_fresh h (count_declarative_heap orders h))"
  by (intro conjI impI transformData_imperative_heap_returns
      transformData_declarative_heap_returns transformAndFilterData_imperative_heap_returns
      transformAndFilterData_declarative_heap_returns groupData_imperative_heap_returns
      groupData_declarative_heap_returns count_imperative_heap_returns
      count_declarative_heap_returns)

theorem task_functions_leave_input_unchanged_witness:
  "string_array_at example_store 0 [''x'', ''y'', ''z''] \<and>
   discount_array_at example_store 6 scenario_4 \<and>
   order_array_at example_store 12 scenario_5 \<and>
   \<not> (\<exists>d \<in> set scenario_4. inherited_key (discount d)) \<and>
   (\<exists>outcome. transformData_imperative_heap ascii_toUpperCase 0 example_store = Some outcome \<and>
      returns_fresh example_store outcome) \<and>
   returns_fresh example_store (transformData_declarative_heap ascii_toUpperCase 0 example_store) \<and>
   (\<exists>outcome. transformAndFilterData_imperative_heap ascii_toUpperCase 0 example_store =
        Some outcome \<and>
      returns_fresh example_store outcome) \<and>
   returns_fresh example_store
     (transformAndFilterData_declarative_heap ascii_toUpperCase 0 example_store) \<and>
   (\<exists>outcome. groupData_imperative_heap 6 example_store = Some outcome \<and>
      returns_fresh example_store outcome) \<and>
   returns_fresh example_store (groupData_declarative_heap 6 example_store) \<and>
   (\<exists>outcome. count_imperative_heap 12 example_store = Some outcome \<and>
      returns_fresh example_store outcome) \<and>
   returns_fresh example_store (count_declarative_heap 12 example_store)"
  using task_functions_leave_input_unchanged
    [of example_store 0 "[''x'', ''y'', ''z'']" ascii_toUpperCase 6 scenario_4 12 scenario_5]
    example_store_strings example_store_discounts example_store_orders scenario_4_safe
  by simp

end
